theory Spec2Isabelle
  imports Main
begin

section \<open>Values, strings and dictionaries\<close>

text \<open>
  Python strings are sequences of Unicode code points; a code point is a natural number.
  \<open>py\<close> writes an ASCII literal of the source as such a sequence.
\<close>

type_synonym codepoint = nat
type_synonym pystr = "codepoint list"

definition py :: "string \<Rightarrow> pystr" where
  "py s = map of_char s"

text \<open>The JSON values a record field can hold. Field names are compared for equality only.\<close>

datatype val =
    VNone
  | VBool bool
  | VInt int
  | VStr pystr
  | VList "val list"
  | VDict "(string \<times> val) list"

text \<open>
  A Python \<open>dict\<close> keeps its keys in insertion order: it is an association list.
  \<open>d[k] = v\<close> replaces the value in place when \<open>k\<close> is present and appends the
  pair otherwise; \<open>d.update(e)\<close> assigns the pairs of \<open>e\<close> in order;
  \<open>list(d.values())\<close> is the values in insertion order.
\<close>

definition dict_get :: "('k \<times> 'v) list \<Rightarrow> 'k \<Rightarrow> 'v option" where
  "dict_get d k = map_of d k"

fun dict_set :: "('k \<times> 'v) list \<Rightarrow> 'k \<Rightarrow> 'v \<Rightarrow> ('k \<times> 'v) list" where
  "dict_set [] k v = [(k, v)]"
| "dict_set ((k', v') # d) k v =
     (if k' = k then (k, v) # d else (k', v') # dict_set d k v)"

definition dict_update :: "('k \<times> 'v) list \<Rightarrow> ('k \<times> 'v) list \<Rightarrow> ('k \<times> 'v) list" where
  "dict_update d e = foldl (\<lambda>m kv. dict_set m (fst kv) (snd kv)) d e"

definition dict_values :: "('k \<times> 'v) list \<Rightarrow> 'v list" where
  "dict_values d = map snd d"

definition wf_dict :: "('k \<times> 'v) list \<Rightarrow> bool" where
  "wf_dict d = distinct (map fst d)"

text \<open>
  A publication is a dict of fields. CustomScholarlyTypes declares \<open>author_pub_id\<close>,
  \<open>title\<close> (and every bib field) as \<open>str = None\<close>, and \<open>last_scraped\<close> is written as a
  string: \<open>str_field p k\<close> is \<open>p.get(k) or ''\<close> for such a field, so it is empty exactly
  when Python's \<open>not p.get(k)\<close> holds.
\<close>

type_synonym pub = "(string \<times> val) list"

definition str_field :: "pub \<Rightarrow> string \<Rightarrow> pystr" where
  "str_field p k = (case dict_get p k of Some (VStr s) \<Rightarrow> s | _ \<Rightarrow> [])"

definition author_pub_id :: "pub \<Rightarrow> pystr" where
  "author_pub_id p = str_field p ''author_pub_id''"

text \<open>
  An author is the class SimplifiedAuthor (or the dict loaded from the results file):
  its identity, its publication list and its remaining attributes. The source reads the
  list as \<open>a.get('publications', []) or []\<close>, so an absent or null list is the empty one.
\<close>

record author =
  scholar_id :: "pystr option"
  publications :: "pub list"
  meta :: "(string \<times> val) list"

section \<open>utilities.py: title normalisation\<close>

text \<open>
  The tables of \<open>unicodedata\<close>, of the regular expression classes \<open>\w\<close> and \<open>\s\<close> and of
  \<open>str.lower\<close>/\<open>str.upper\<close> belong to the Python library; they are parameters.
  \<open>ascii_ucd\<close> agrees with CPython on strings of code points below 128.
\<close>

record ucd =
  u_nfkd :: "pystr \<Rightarrow> pystr"
  u_combining :: "codepoint \<Rightarrow> nat"
  u_word :: "codepoint \<Rightarrow> bool"
  u_space :: "codepoint \<Rightarrow> bool"
  u_lower :: "pystr \<Rightarrow> pystr"
  u_upper :: "pystr \<Rightarrow> pystr"

definition ascii_word :: "codepoint \<Rightarrow> bool" where
  "ascii_word c = ((48 \<le> c \<and> c \<le> 57) \<or> (65 \<le> c \<and> c \<le> 90) \<or> c = 95 \<or> (97 \<le> c \<and> c \<le> 122))"

definition ascii_space :: "codepoint \<Rightarrow> bool" where
  "ascii_space c = ((9 \<le> c \<and> c \<le> 13) \<or> (28 \<le> c \<and> c \<le> 32))"

definition ascii_lower :: "pystr \<Rightarrow> pystr" where
  "ascii_lower s = map (\<lambda>c. if 65 \<le> c \<and> c \<le> 90 then c + 32 else c) s"

definition ascii_upper :: "pystr \<Rightarrow> pystr" where
  "ascii_upper s = map (\<lambda>c. if 97 \<le> c \<and> c \<le> 122 then c - 32 else c) s"

definition ascii_ucd :: ucd where
  "ascii_ucd = \<lparr> u_nfkd = (\<lambda>s. s), u_combining = (\<lambda>c. 0), u_word = ascii_word,
     u_space = ascii_space, u_lower = ascii_lower, u_upper = ascii_upper \<rparr>"

text \<open>\<open>re.sub(r'\s+', ' ', t)\<close>: every maximal run of whitespace becomes one space.\<close>

fun collapse_ws :: "(codepoint \<Rightarrow> bool) \<Rightarrow> pystr \<Rightarrow> pystr" where
  "collapse_ws sp [] = []"
| "collapse_ws sp [c] = (if sp c then [32] else [c])"
| "collapse_ws sp (c # d # cs) =
     (if sp c \<and> sp d then collapse_ws sp (d # cs)
      else (if sp c then 32 else c) # collapse_ws sp (d # cs))"

text \<open>\<open>str.strip()\<close>: leading and trailing whitespace removed.\<close>

definition strip :: "(codepoint \<Rightarrow> bool) \<Rightarrow> pystr \<Rightarrow> pystr" where
  "strip sp s = rev (dropWhile sp (rev (dropWhile sp s)))"

text \<open>
  \<open>_normalize_title_for_dedupe\<close>. On a string none of the library calls raises, so the
  \<open>except\<close> branch is not taken.
\<close>

definition normalize_title_for_dedupe :: "ucd \<Rightarrow> pystr \<Rightarrow> pystr" where
  "normalize_title_for_dedupe U title =
     (if title = [] then []
      else
        let t = u_nfkd U title;
            t = filter (\<lambda>ch. u_combining U ch = 0) t;
            t = map (\<lambda>ch. if u_word U ch \<or> u_space U ch then ch else 32) t;
            t = u_lower U (strip (u_space U) (collapse_ws (u_space U) t))
        in t)"

section \<open>utilities.py: merge\_and\_save\_results, the merge\<close>

text \<open>
  The publication merge of an author already in the map (the same loop stands in
  scraper.py): \<open>pub_map\<close> indexes the old publications that have an id; each new
  publication with an id is laid over the entry of that id, or inserted.
\<close>

definition index_pubs :: "pub list \<Rightarrow> (pystr \<times> pub) list" where
  "index_pubs old_pubs =
     foldl (\<lambda>m p. if author_pub_id p \<noteq> [] then dict_set m (author_pub_id p) p else m) [] old_pubs"

definition merge_pub :: "(pystr \<times> pub) list \<Rightarrow> pub \<Rightarrow> (pystr \<times> pub) list" where
  "merge_pub pub_map pub =
     (let pid = author_pub_id pub in
      if pid = [] then pub_map
      else (case dict_get pub_map pid of
              Some existing \<Rightarrow> dict_set pub_map pid (dict_update existing pub)
            | None \<Rightarrow> dict_set pub_map pid pub))"

definition merge_pubs :: "pub list \<Rightarrow> pub list \<Rightarrow> (pystr \<times> pub) list" where
  "merge_pubs old_pubs new_pubs = foldl merge_pub (index_pubs old_pubs) new_pubs"

text \<open>
  The author map, keyed by \<open>scholar_id\<close>; records without an id are skipped, those of
  the file as well as the scraped ones (an empty record has no id either). A scraped
  record replaces the old one, with the merged publications when the author was known and
  with its own publications otherwise.
\<close>

definition index_authors :: "author list \<Rightarrow> (pystr \<times> author) list" where
  "index_authors existing =
     foldl (\<lambda>m a. case scholar_id a of
                     None \<Rightarrow> m
                   | Some sid \<Rightarrow> if sid = [] then m else dict_set m sid a) [] existing"

definition merge_author :: "(pystr \<times> author) list \<Rightarrow> author \<Rightarrow> (pystr \<times> author) list" where
  "merge_author author_map scraped =
     (case scholar_id scraped of
        None \<Rightarrow> author_map
      | Some sid \<Rightarrow>
          if sid = [] then author_map
          else (case dict_get author_map sid of
                  Some old \<Rightarrow>
                    dict_set author_map sid
                      (scraped\<lparr>publications :=
                         dict_values (merge_pubs (publications old) (publications scraped))\<rparr>)
                | None \<Rightarrow> dict_set author_map sid scraped))"

text \<open>Publications without \<open>last_scraped\<close> get the time of the call.\<close>

definition stamp_pub :: "pystr \<Rightarrow> pub \<Rightarrow> pub" where
  "stamp_pub now_iso p =
     (if str_field p ''last_scraped'' = [] then dict_set p ''last_scraped'' (VStr now_iso) else p)"

definition stamp_author :: "pystr \<Rightarrow> author \<Rightarrow> author" where
  "stamp_author now_iso a = a\<lparr>publications := map (stamp_pub now_iso) (publications a)\<rparr>"

text \<open>
  The dedupe pass: one set \<open>seen_titles\<close> for all authors, in the order of the map. The
  title is \<open>p.get('title') or (p.get('bib') and p['bib'].get('title')) or ''\<close>. Storing the
  author again under its own id changes nothing in the map.
\<close>

definition pub_title :: "pub \<Rightarrow> pystr" where
  "pub_title p =
     (if str_field p ''title'' \<noteq> [] then str_field p ''title''
      else (case dict_get p ''bib'' of
              Some (VDict b) \<Rightarrow> str_field b ''title''
            | _ \<Rightarrow> []))"

definition pub_key :: "ucd \<Rightarrow> pub \<Rightarrow> pystr" where
  "pub_key U p =
     (let normalized = normalize_title_for_dedupe U (pub_title p) in
      if normalized = [] then py ''__id__:'' @ author_pub_id p else normalized)"

fun dedupe_pubs :: "ucd \<Rightarrow> pystr set \<Rightarrow> pub list \<Rightarrow> pub list \<times> pystr set" where
  "dedupe_pubs U seen [] = ([], seen)"
| "dedupe_pubs U seen (p # ps) =
     (if pub_key U p \<in> seen then dedupe_pubs U seen ps
      else (case dedupe_pubs U (insert (pub_key U p) seen) ps of
              (new_pubs, seen') \<Rightarrow> (p # new_pubs, seen')))"

fun dedupe_authors :: "ucd \<Rightarrow> pystr set \<Rightarrow> author list \<Rightarrow> author list" where
  "dedupe_authors U seen [] = []"
| "dedupe_authors U seen (a # as) =
     (case dedupe_pubs U seen (publications a) of
        (new_pubs, seen') \<Rightarrow> a\<lparr>publications := new_pubs\<rparr> # dedupe_authors U seen' as)"

text \<open>
  The dataset that \<open>merge_and_save_results\<close> writes: \<open>existing\<close> is the content of the
  results file, \<open>partial_authors\<close> the scraped records, \<open>utcnow\<close> the text
  \<open>datetime.datetime.utcnow().isoformat()\<close> of the clock reading.
\<close>

definition merge_results :: "ucd \<Rightarrow> pystr \<Rightarrow> author list \<Rightarrow> author list \<Rightarrow> author list" where
  "merge_results U utcnow existing partial_authors =
     (let author_map = foldl merge_author (index_authors existing) partial_authors;
          now_iso = utcnow @ py ''Z'';
          stamped = map (stamp_author now_iso) (dict_values author_map)
      in dedupe_authors U {} stamped)"

text \<open>Every entry of \<open>pub_map\<close> is stored under its own, non-empty id.\<close>

definition keyed_by_id :: "(pystr \<times> pub) list \<Rightarrow> bool" where
  "keyed_by_id pm = (\<forall>(i, m) \<in> set pm. author_pub_id m = i \<and> i \<noteq> [])"

section \<open>Example records\<close>

definition ex_sid :: pystr where
  "ex_sid = py ''A1''"

definition ex_utcnow :: pystr where
  "ex_utcnow = py ''2024-01-01T00:00:00''"

definition ex_now :: pystr where
  "ex_now = py ''2024-01-01T00:00:00Z''"

definition ex_author :: "pub list \<Rightarrow> author" where
  "ex_author ps = \<lparr>scholar_id = Some ex_sid, publications = ps, meta = []\<rparr>"

definition ex_prior :: pub where
  "ex_prior = [(''author_pub_id'', VStr (py ''A1:p1'')), (''title'', VStr (py ''T'')),
               (''pages'', VStr (py ''1-9''))]"

definition ex_incoming :: pub where
  "ex_incoming = [(''author_pub_id'', VStr (py ''A1:p1'')), (''title'', VStr (py ''T''))]"

definition ex_incoming_empty :: pub where
  "ex_incoming_empty = [(''author_pub_id'', VStr (py ''A1:p1'')), (''title'', VStr (py ''T'')),
                        (''pages'', VStr [])]"

definition ex_no_id :: pub where
  "ex_no_id = [(''title'', VStr (py ''T''))]"



definition ex_dl1 :: pub where
  "ex_dl1 = [(''author_pub_id'', VStr (py ''A1:p7'')), (''title'', VStr (py ''Deep Learning!''))]"

definition ex_dl2 :: pub where
  "ex_dl2 = [(''title'', VStr (py ''deep   learning''))]"

definition ex_bare1 :: pub where
  "ex_bare1 = [(''pub_year'', VStr (py ''2020''))]"

definition ex_bare2 :: pub where
  "ex_bare2 = [(''title'', VStr (py ''?!'')), (''pub_year'', VStr (py ''2021''))]"

definition ex_author2 :: "pub list \<Rightarrow> author" where
  "ex_author2 ps = \<lparr>scholar_id = Some (py ''B2''), publications = ps, meta = []\<rparr>"

text \<open>A publication whose title normalises to the empty string and that has no id.\<close>

definition keyless :: "ucd \<Rightarrow> pub \<Rightarrow> bool" where
  "keyless U p = (normalize_title_for_dedupe U (pub_title p) = [] \<and> author_pub_id p = [])"


section \<open>scraper.py: check\_author\_needs\_scraping\<close>

text \<open>
  \<open>datetime.fromisoformat\<close> belongs to the Python library; it is a parameter. It fails
  (\<open>None\<close>), or gives a datetime that carries an offset (\<open>Aware\<close>, as microseconds since
  the epoch) or none (\<open>Naive\<close>); subtracting a naive datetime from the aware \<open>now\<close> raises.
  Every exception of the \<open>try\<close> block selects the author.
\<close>

datatype datetime = Aware int | Naive int

definition replace_Z :: "pystr \<Rightarrow> pystr" where
  "replace_Z s = concat (map (\<lambda>c. if c = 90 then py ''+00:00'' else [c]) s)"

definition timedelta_days :: "int \<Rightarrow> int" where
  "timedelta_days d = d * 86400000000"

definition pub_is_stale :: "(pystr \<Rightarrow> datetime option) \<Rightarrow> int \<Rightarrow> int \<Rightarrow> pub \<Rightarrow> bool" where
  "pub_is_stale fromisoformat now threshold p =
     (let last_scraped = str_field p ''last_scraped'' in
      if last_scraped = [] then True
      else (case fromisoformat (replace_Z last_scraped) of
              None \<Rightarrow> True
            | Some (Naive t) \<Rightarrow> True
            | Some (Aware t) \<Rightarrow> now - t > threshold))"

fun first_stale :: "(pystr \<Rightarrow> datetime option) \<Rightarrow> int \<Rightarrow> int \<Rightarrow> pystr \<Rightarrow> pub list \<Rightarrow> pystr option" where
  "first_stale fromisoformat now threshold sid [] = None"
| "first_stale fromisoformat now threshold sid (p # ps) =
     (if pub_is_stale fromisoformat now threshold p then Some sid
      else first_stale fromisoformat now threshold sid ps)"

definition check_author_needs_scraping ::
  "(pystr \<Rightarrow> datetime option) \<Rightarrow> int \<Rightarrow> author \<Rightarrow> int \<Rightarrow> pystr option" where
  "check_author_needs_scraping fromisoformat now author threshold_days =
     (case scholar_id author of
        None \<Rightarrow> None
      | Some sid \<Rightarrow>
          if sid = [] then None
          else if publications author = [] then Some sid
          else first_stale fromisoformat now (timedelta_days threshold_days) sid (publications author))"

text \<open>An example clock: the one timestamp it knows is midnight of 2024-01-01, UTC.\<close>

definition ex_fromisoformat :: "pystr \<Rightarrow> datetime option" where
  "ex_fromisoformat s =
     (if s = py ''2024-01-01T00:00:00+00:00'' then Some (Aware 1704067200000000)
      else if s = py ''2024-01-01T00:00:00'' then Some (Naive 1704067200000000)
      else None)"

definition ex_scraped_pub :: "pystr \<Rightarrow> pub" where
  "ex_scraped_pub pid =
     [(''author_pub_id'', VStr pid), (''last_scraped'', VStr ex_now)]"

section \<open>ScholarScraper.py: check\_for\_captcha and crawl\<close>

text \<open>
  An exception is what the handlers look at: whether it is an instance of scholarly's
  \<open>CaptchaDetectedException\<close>, and its text \<open>str(e)\<close>.
\<close>

datatype exn = Exn (is_captcha_exception: bool) (message: pystr)

datatype 'a outcome = Returned 'a | Raised exn

definition MAX_RETRIES :: nat where
  "MAX_RETRIES = 1"

definition MAX_TIME_PER_AUTHOR :: int where
  "MAX_TIME_PER_AUTHOR = 30"

definition CAPTCHA_KEYWORDS :: "pystr list" where
  "CAPTCHA_KEYWORDS =
     [py ''captcha'', py ''unusual traffic'', py ''not a robot'', py ''verify you'', py ''blocked'']"

text \<open>\<open>sub in s\<close> for strings.\<close>

fun starts_with :: "'a list \<Rightarrow> 'a list \<Rightarrow> bool" where
  "starts_with [] s = True"
| "starts_with (x # xs) [] = False"
| "starts_with (x # xs) (y # ys) = (x = y \<and> starts_with xs ys)"

fun contains :: "'a list \<Rightarrow> 'a list \<Rightarrow> bool" where
  "contains sub [] = (sub = [])"
| "contains sub (c # cs) = (starts_with sub (c # cs) \<or> contains sub cs)"

definition check_for_captcha :: "ucd \<Rightarrow> pystr \<Rightarrow> bool" where
  "check_for_captcha U error_msg =
     (let error_lower = u_lower U error_msg in
      list_ex (\<lambda>keyword. contains keyword error_lower) CAPTCHA_KEYWORDS)"

text \<open>
  What one author's crawl meets: the outcome of the \<open>i\<close>-th call of \<open>getAuthorData\<close>
  (the fetch is the external collaborator), the time elapsed at the top of the \<open>i\<close>-th
  iteration in milliseconds, and the text \<open>f'{elapsed:.1f}'\<close> of it. The backoff sleep and
  \<open>set_new_proxy\<close> change nothing but these.
\<close>

record 'a attempts =
  getAuthorData :: "nat \<Rightarrow> 'a outcome"
  elapsed_ms :: "nat \<Rightarrow> int"
  elapsed_text :: "nat \<Rightarrow> pystr"

fun crawl_attempts :: "ucd \<Rightarrow> 'a attempts \<Rightarrow> nat list \<Rightarrow> exn + 'a option" where
  "crawl_attempts U w [] = Inr None"
| "crawl_attempts U w (i # later) =
     (if elapsed_ms w i > MAX_TIME_PER_AUTHOR * 1000
      then Inl (Exn False (py ''CAPTCHA_DETECTED: Timeout after '' @ elapsed_text w i
                             @ py ''s - likely stuck on CAPTCHA''))
      else (case getAuthorData w i of
              Returned data \<Rightarrow> Inr (Some data)
            | Raised e \<Rightarrow>
                if check_for_captcha U (message e)
                then Inl (Exn False (py ''CAPTCHA_DETECTED: '' @ message e))
                else crawl_attempts U w later))"

definition crawl :: "ucd \<Rightarrow> 'a attempts \<Rightarrow> exn + 'a option" where
  "crawl U w = crawl_attempts U w [0..<MAX_RETRIES]"

section \<open>utilities.py: merge\_and\_save\_results, the files\<close>

text \<open>
  A file holds the complete JSON text of a dataset, or a torn one (a write that stopped
  midway; \<open>json.load\<close> fails on it). \<open>with open(path, 'w') as f: json.dump(data, f)\<close> can
  fail before the file is opened, leaving it as it was, or during the dump, leaving a torn
  file; \<open>os.replace\<close> can fail, leaving both files as they were. Which of these happens is
  given by the environment. A results file that is absent, torn or unreadable loads as the
  empty list.
\<close>

datatype file_content = Complete "author list" | Torn "author list"

type_synonym files = "string \<Rightarrow> file_content option"

datatype write_result = Written | OpenFailed pystr | DumpFailed pystr

record faults =
  read_fails :: bool
  write_temp :: write_result
  replace_fails :: "pystr option"
  write_final :: write_result

definition no_faults :: faults where
  "no_faults = \<lparr>read_fails = False, write_temp = Written, replace_fails = None,
                 write_final = Written\<rparr>"

definition write_file :: "files \<Rightarrow> string \<Rightarrow> author list \<Rightarrow> write_result \<Rightarrow> exn option \<times> files" where
  "write_file fs path data r =
     (case r of
        Written \<Rightarrow> (None, fs(path \<mapsto> Complete data))
      | OpenFailed m \<Rightarrow> (Some (Exn False m), fs)
      | DumpFailed m \<Rightarrow> (Some (Exn False m), fs(path \<mapsto> Torn data)))"

definition load_existing :: "faults \<Rightarrow> files \<Rightarrow> string \<Rightarrow> author list" where
  "load_existing F fs path =
     (case fs path of
        None \<Rightarrow> []
      | Some (Complete authors) \<Rightarrow> if read_fails F then [] else authors
      | Some (Torn authors) \<Rightarrow> [])"

definition write_final_path :: "faults \<Rightarrow> files \<Rightarrow> string \<Rightarrow> author list \<Rightarrow> (exn + unit) \<times> files" where
  "write_final_path F fs path merged =
     (case write_file fs path merged (write_final F) of
        (None, fs') \<Rightarrow> (Inr (), fs')
      | (Some e, fs') \<Rightarrow> (Inl e, fs'))"

definition merge_and_save_results ::
  "ucd \<Rightarrow> pystr \<Rightarrow> faults \<Rightarrow> files \<Rightarrow> author list \<Rightarrow> string \<Rightarrow> (exn + unit) \<times> files" where
  "merge_and_save_results U utcnow F fs partial_authors results_file_path =
     (let existing = load_existing F fs results_file_path;
          merged = merge_results U utcnow existing partial_authors;
          temp_path = results_file_path @ ''.tmp''
      in (case write_file fs temp_path merged (write_temp F) of
            (None, fs1) \<Rightarrow>
              (case replace_fails F of
                 None \<Rightarrow> (Inr (), (fs1(results_file_path := fs1 temp_path))(temp_path := None))
               | Some m \<Rightarrow> write_final_path F fs1 results_file_path merged)
          | (Some e, fs1) \<Rightarrow> write_final_path F fs1 results_file_path merged))"

section \<open>ScholarScraper.py: start\_scraping\<close>

definition is_captcha :: "ucd \<Rightarrow> exn \<Rightarrow> bool" where
  "is_captcha U e =
     (is_captcha_exception e \<or> contains (py ''CAPTCHA_DETECTED'') (u_upper U (message e)))"

text \<open>
  \<open>_save_partial_results\<close> logs a failure of the save and goes on: only the files remain.
\<close>

definition save_partial_results ::
  "ucd \<Rightarrow> pystr \<Rightarrow> faults \<Rightarrow> files \<Rightarrow> author list \<Rightarrow> string \<Rightarrow> files" where
  "save_partial_results U utcnow F fs authorsList path =
     snd (merge_and_save_results U utcnow F fs authorsList path)"

text \<open>
  The sequential loop of \<open>start_scraping\<close> over the ids, from the \<open>k\<close>-th on; \<open>W k\<close> is what
  the crawl of the \<open>k\<close>-th id meets. The result is the raised exception or the returned
  list, with \<open>self.authorsList\<close> and the files. (The session cookies loaded before the
  loop reach the fetch collaborator only.)
\<close>

fun scrape_from ::
  "ucd \<Rightarrow> (nat \<Rightarrow> author attempts) \<Rightarrow> pystr \<Rightarrow> faults \<Rightarrow> string \<Rightarrow> files \<Rightarrow> author list \<Rightarrow> nat
     \<Rightarrow> pystr list \<Rightarrow> (exn + author list) \<times> author list \<times> files" where
  "scrape_from U W utcnow F path fs authorsList k [] = (Inr authorsList, authorsList, fs)"
| "scrape_from U W utcnow F path fs authorsList k (scholarId # rest) =
     (case crawl U (W k) of
        Inr (Some res) \<Rightarrow> scrape_from U W utcnow F path fs (authorsList @ [res]) (Suc k) rest
      | Inr None \<Rightarrow> scrape_from U W utcnow F path fs authorsList (Suc k) rest
      | Inl e \<Rightarrow>
          if is_captcha U e
          then (Inl (Exn False (py ''CAPTCHA_DETECTED: CAPTCHA encountered while processing ''
                                  @ scholarId)),
                authorsList, save_partial_results U utcnow F fs authorsList path)
          else scrape_from U W utcnow F path fs authorsList (Suc k) rest)"

definition start_scraping ::
  "ucd \<Rightarrow> (nat \<Rightarrow> author attempts) \<Rightarrow> pystr \<Rightarrow> faults \<Rightarrow> string \<Rightarrow> files \<Rightarrow> pystr list
     \<Rightarrow> (exn + author list) \<times> author list \<times> files" where
  "start_scraping U W utcnow F path fs scholarIds =
     scrape_from U W utcnow F path fs [] 0 scholarIds"

section \<open>scraper.py: the run\<close>

text \<open>
  The module: nothing to scrape exits with 0; a CAPTCHA error from \<open>start_scraping\<close> saves
  \<open>scholar_scraper.authorsList\<close> once more (a failure of that save is logged) and exits
  with 3, any other error is raised again (exit code 1); otherwise the scraped authors
  are merged into the loaded ones and saved through \<open>merge_and_save_results\<close>, exit 0, or
  2 when that save raises. The two saves read the clock and meet faults of their own.
\<close>

definition scraper_run ::
  "ucd \<Rightarrow> (nat \<Rightarrow> author attempts) \<Rightarrow> pystr \<Rightarrow> faults \<Rightarrow> string \<Rightarrow> pystr \<Rightarrow> faults \<Rightarrow> string
     \<Rightarrow> files \<Rightarrow> pystr list \<Rightarrow> int \<times> files" where
  "scraper_run U W utcnow1 F1 partial_path utcnow2 F2 results_file fs scholarIds =
     (let existing_authors = load_existing F2 fs results_file in
      if scholarIds = [] then (0, fs)
      else (case start_scraping U W utcnow1 F1 partial_path fs scholarIds of
              (Inl e, partial_results, fs1) \<Rightarrow>
                if is_captcha U e
                then (3, if partial_results \<noteq> []
                         then snd (merge_and_save_results U utcnow2 F2 fs1 partial_results results_file)
                         else fs1)
                else (1, fs1)
            | (Inr results, partial_results, fs1) \<Rightarrow>
                (let merged_results =
                       dict_values (foldl merge_author (index_authors existing_authors) results)
                 in (case merge_and_save_results U utcnow2 F2 fs1 merged_results results_file of
                       (Inr u, fs2) \<Rightarrow> (0, fs2)
                     | (Inl e, fs2) \<Rightarrow> (2, fs2)))))"

section \<open>Example runs\<close>

text \<open>A crawl whose every fetch raises \<open>e\<close>, and one whose fetch returns an author at once.\<close>

definition ex_raising :: "exn \<Rightarrow> author attempts" where
  "ex_raising e = \<lparr>getAuthorData = (\<lambda>i. Raised e), elapsed_ms = (\<lambda>i. 0),
                    elapsed_text = (\<lambda>i. py ''0.0'')\<rparr>"

definition ex_returning :: "author \<Rightarrow> author attempts" where
  "ex_returning a = \<lparr>getAuthorData = (\<lambda>i. Returned a), elapsed_ms = (\<lambda>i. 0),
                      elapsed_text = (\<lambda>i. py ''0.0'')\<rparr>"

definition ex_files :: files where
  "ex_files = (\<lambda>p. None)(''results.json'' \<mapsto> Complete [ex_author [ex_prior]])"


text \<open>\<open>str.upper\<close> leaves the tag \<open>CAPTCHA_DETECTED\<close> at the head of a message as it is.\<close>

definition upper_keeps_tag :: "ucd \<Rightarrow> bool" where
  "upper_keeps_tag U =
     (\<forall>s. starts_with (py ''CAPTCHA_DETECTED'') (u_upper U (py ''CAPTCHA_DETECTED'' @ s)))"

text \<open>
  A run over five ids: the first two fetches return an author, the third raises a
  challenge error, the last two would return an author again.
\<close>

definition ex_world :: "nat \<Rightarrow> author attempts" where
  "ex_world k =
     (if k = 0 then ex_returning (ex_author [ex_prior])
      else if k = 1 then ex_returning (ex_author2 [ex_dl1])
      else if k = 2 then ex_raising (Exn False (py ''Please show you are not a robot''))
      else ex_returning \<lparr>scholar_id = Some (py ''C3''), publications = [], meta = []\<rparr>)"

definition ex_ids :: "pystr list" where
  "ex_ids = [py ''A1'', py ''B2'', py ''C3'', py ''D4'', py ''E5'']"

definition ex_saved :: "author list" where
  "ex_saved =
     [ex_author [ex_prior @ [(''last_scraped'', VStr ex_now)]],
      ex_author2 [ex_dl1 @ [(''last_scraped'', VStr ex_now)]]]"

section \<open>Records for which a repeated merge is stable\<close>

text \<open>
  A scraped record whose publications are dicts with a non-empty id, pairwise distinct, a
  non-empty title, and no \<open>last_scraped\<close> that is present but empty.
\<close>

definition well_identified :: "author \<Rightarrow> bool" where
  "well_identified P =
     ((\<forall>p \<in> set (publications P).
          wf_dict p \<and> author_pub_id p \<noteq> [] \<and> str_field p ''title'' \<noteq> []
          \<and> (dict_get p ''last_scraped'' = None \<or> str_field p ''last_scraped'' \<noteq> []))
      \<and> distinct (map author_pub_id (publications P)))"

text \<open>
  A dataset in which the record \<open>P\<close> has been merged: its authors have distinct non-empty
  ids, its publications are stamped and have distinct keys; and unless \<open>P\<close> has no id, the
  entry of \<open>P\<close> holds publications \<open>S\<close> with distinct non-empty ids such that every
  publication of \<open>P\<close> has its key among those of the entries up to \<open>S\<close>, and the one of
  \<open>S\<close> with its id, if any, has all its fields.
\<close>

definition has_fields :: "pub \<Rightarrow> pub \<Rightarrow> bool" where
  "has_fields m q = (\<forall>(k, v) \<in> set q. dict_get m k = Some v)"

definition settled :: "ucd \<Rightarrow> author \<Rightarrow> author list \<Rightarrow> bool" where
  "settled U P D =
     ((\<forall>a \<in> set D. scholar_id a \<noteq> None \<and> scholar_id a \<noteq> Some [])
      \<and> distinct (map scholar_id D)
      \<and> (\<forall>a \<in> set D. \<forall>p \<in> set (publications a). str_field p ''last_scraped'' \<noteq> [])
      \<and> distinct (map (pub_key U) (concat (map publications D)))
      \<and> (scholar_id P = None \<or> scholar_id P = Some [] \<or>
         (\<exists>A S B. D = A @ P\<lparr>publications := S\<rparr> # B
            \<and> distinct (map author_pub_id S) \<and> (\<forall>m \<in> set S. author_pub_id m \<noteq> [])
            \<and> (\<forall>q \<in> set (publications P).
                  pub_key U q \<in> pub_key U ` set (concat (map publications A) @ S)
                  \<and> (\<forall>m \<in> set S. author_pub_id m = author_pub_id q \<longrightarrow> has_fields m q)))))"

text \<open>Every entry of \<open>author_map\<close> is stored under its own, non-empty \<open>scholar_id\<close>.\<close>

definition keyed_by_sid :: "(pystr \<times> author) list \<Rightarrow> bool" where
  "keyed_by_sid am = (\<forall>(k, a) \<in> set am. scholar_id a = Some k \<and> k \<noteq> [])"

text \<open>The lists of a dataset as the dicts they come from, in order.\<close>

definition by_id :: "pub list \<Rightarrow> (pystr \<times> pub) list" where
  "by_id ps = map (\<lambda>p. (author_pub_id p, p)) ps"

definition by_sid :: "author list \<Rightarrow> (pystr \<times> author) list" where
  "by_sid D = map (\<lambda>a. (the (scholar_id a), a)) D"

definition ex_twin :: pub where
  "ex_twin = [(''author_pub_id'', VStr (py ''A1:p1'')), (''title'', VStr (py ''T2''))]"

section \<open>Titles as sequences of words\<close>







section \<open>Dictionaries: basic facts\<close>

lemma map_of_dict_set: "map_of (dict_set d k v) = (map_of d)(k \<mapsto> v)"
  by (induction d) auto

lemma dict_get_set: "dict_get (dict_set d k v) k' = (if k' = k then Some v else dict_get d k')"
  by (simp add: dict_get_def map_of_dict_set)

lemma map_fst_dict_set:
  "map fst (dict_set d k v) = (if k \<in> fst ` set d then map fst d else map fst d @ [k])"
  by (induction d) fastforce+

lemma keys_dict_set: "fst ` set (dict_set d k v) = insert k (fst ` set d)"
  unfolding set_map [symmetric] map_fst_dict_set by auto

lemma wf_dict_set: "wf_dict d \<Longrightarrow> wf_dict (dict_set d k v)"
  by (simp add: wf_dict_def map_fst_dict_set)

lemma dict_set_same: "dict_get d k = Some v \<Longrightarrow> dict_set d k v = d"
  by (induction d) (auto simp: dict_get_def)

lemma dict_set_absent: "dict_get d k = None \<Longrightarrow> dict_set d k v = d @ [(k, v)]"
  by (induction d) (auto simp: dict_get_def)

lemma dict_get_None_iff: "dict_get d k = None \<longleftrightarrow> k \<notin> fst ` set d"
  by (simp add: dict_get_def map_of_eq_None_iff)

lemma dict_get_in_set: "dict_get d k = Some v \<Longrightarrow> (k, v) \<in> set d"
  by (simp add: dict_get_def map_of_SomeD)

lemma dict_update_Nil: "dict_update d [] = d"
  by (simp add: dict_update_def)

lemma dict_update_Cons: "dict_update d (kv # e) = dict_update (dict_set d (fst kv) (snd kv)) e"
  by (simp add: dict_update_def)

lemma map_of_dict_update:
  "distinct (map fst e) \<Longrightarrow>
   map_of (dict_update d e) k = (case map_of e k of Some v \<Rightarrow> Some v | None \<Rightarrow> map_of d k)"
proof (induction e arbitrary: d)
  case Nil
  then show ?case by (simp add: dict_update_Nil)
next
  case (Cons kv e)
  obtain k' v' where kv: "kv = (k', v')" by (cases kv)
  from Cons.prems kv have dist: "distinct (map fst e)" and fresh: "map_of e k' = None"
    by (auto simp: map_of_eq_None_iff)
  show ?case
    using Cons.IH [OF dist, of "dict_set d k' v'"] fresh
    by (simp add: kv dict_update_Cons map_of_dict_set split: option.splits)
qed

lemma dict_get_update:
  "wf_dict e \<Longrightarrow>
   dict_get (dict_update d e) k = (case dict_get e k of Some v \<Rightarrow> Some v | None \<Rightarrow> dict_get d k)"
  unfolding wf_dict_def dict_get_def by (rule map_of_dict_update)

lemma keys_dict_update: "fst ` set (dict_update d e) = fst ` set d \<union> fst ` set e"
  by (induction e arbitrary: d) (auto simp: dict_update_Nil dict_update_Cons keys_dict_set)

lemma dict_update_same:
  "(\<And>k v. (k, v) \<in> set e \<Longrightarrow> dict_get d k = Some v) \<Longrightarrow> dict_update d e = d"
  by (induction e arbitrary: d) (auto simp: dict_update_Nil dict_update_Cons dict_set_same)

section \<open>The publication merge: basic facts\<close>

lemma index_pubs_Nil: "index_pubs [] = []"
  by (simp add: index_pubs_def)

lemma index_pubs_snoc:
  "index_pubs (ps @ [p]) =
     (if author_pub_id p \<noteq> [] then dict_set (index_pubs ps) (author_pub_id p) p else index_pubs ps)"
  by (simp add: index_pubs_def)

lemma merge_pubs_Nil: "merge_pubs old_pubs [] = index_pubs old_pubs"
  by (simp add: merge_pubs_def)

lemma merge_pubs_snoc: "merge_pubs old_pubs (qs @ [q]) = merge_pub (merge_pubs old_pubs qs) q"
  by (simp add: merge_pubs_def)

lemma merge_pubs_Cons_fold:
  "foldl merge_pub pm (q # qs) = foldl merge_pub (merge_pub pm q) qs"
  by simp

lemma index_pubs_get:
  "dict_get (index_pubs ps) i =
     (if i = [] \<or> filter (\<lambda>p. author_pub_id p = i) ps = [] then None
      else Some (last (filter (\<lambda>p. author_pub_id p = i) ps)))"
  by (induction ps rule: rev_induct)
     (auto simp: index_pubs_Nil index_pubs_snoc dict_get_set, simp add: dict_get_def)

lemma index_pubs_keys:
  "fst ` set (index_pubs ps) = {author_pub_id p | p. p \<in> set ps \<and> author_pub_id p \<noteq> []}"
  by (induction ps rule: rev_induct)
     (auto simp: index_pubs_Nil index_pubs_snoc keys_dict_set)

lemma merge_pub_skip: "author_pub_id q = [] \<Longrightarrow> merge_pub pm q = pm"
  by (simp add: merge_pub_def)

lemma merge_pub_get_other:
  "author_pub_id q \<noteq> i \<Longrightarrow> dict_get (merge_pub pm q) i = dict_get pm i"
  by (simp add: merge_pub_def Let_def dict_get_set split: option.splits)

lemma merge_pub_get_same:
  "author_pub_id q \<noteq> [] \<Longrightarrow>
   dict_get (merge_pub pm q) (author_pub_id q) =
     (case dict_get pm (author_pub_id q) of
        Some existing \<Rightarrow> Some (dict_update existing q)
      | None \<Rightarrow> Some q)"
  by (simp add: merge_pub_def Let_def dict_get_set split: option.splits)

lemma fold_merge_pub_get_other:
  "\<forall>q \<in> set qs. author_pub_id q \<noteq> i \<Longrightarrow>
   dict_get (foldl merge_pub pm qs) i = dict_get pm i"
  by (induction qs arbitrary: pm) (simp_all add: merge_pub_get_other)

lemma merge_pub_keys:
  "fst ` set (merge_pub pm q) =
     (if author_pub_id q = [] then fst ` set pm else insert (author_pub_id q) (fst ` set pm))"
  by (simp add: merge_pub_def Let_def keys_dict_set split: option.splits)

lemma fold_merge_pub_keys:
  "fst ` set (foldl merge_pub pm qs) =
     fst ` set pm \<union> {author_pub_id q | q. q \<in> set qs \<and> author_pub_id q \<noteq> []}"
  by (induction qs arbitrary: pm) (auto simp: merge_pub_keys)

lemma merge_pubs_keys:
  "fst ` set (merge_pubs old_pubs new_pubs) =
     {author_pub_id p | p. (p \<in> set old_pubs \<or> p \<in> set new_pubs) \<and> author_pub_id p \<noteq> []}"
  by (auto simp: merge_pubs_def fold_merge_pub_keys index_pubs_keys)

lemma merge_pubs_unique_incoming:
  assumes uniq: "filter (\<lambda>q. author_pub_id q = pid) new_pubs = [pub]" and pid: "pid \<noteq> []"
  shows "dict_get (merge_pubs old_pubs new_pubs) pid =
           (case dict_get (index_pubs old_pubs) pid of
              Some prior \<Rightarrow> Some (dict_update prior pub)
            | None \<Rightarrow> Some pub)"
proof -
  from uniq obtain us vs where new: "new_pubs = us @ pub # vs"
    and us: "\<forall>u \<in> set us. author_pub_id u \<noteq> pid"
    and pub: "author_pub_id pub = pid"
    and vs: "filter (\<lambda>q. author_pub_id q = pid) vs = []"
    by (auto simp: filter_eq_Cons_iff)
  from vs have vs': "\<forall>v \<in> set vs. author_pub_id v \<noteq> pid"
    by (simp add: filter_empty_conv)
  let ?pm = "foldl merge_pub (index_pubs old_pubs) us"
  have before: "dict_get ?pm pid = dict_get (index_pubs old_pubs) pid"
    using us by (rule fold_merge_pub_get_other)
  have "dict_get (merge_pubs old_pubs new_pubs) pid = dict_get (merge_pub ?pm pub) pid"
    using vs' by (simp add: merge_pubs_def new fold_merge_pub_get_other)
  also have "\<dots> = (case dict_get ?pm pid of
                      Some existing \<Rightarrow> Some (dict_update existing pub) | None \<Rightarrow> Some pub)"
    using merge_pub_get_same [of pub ?pm] pub pid by simp
  finally show ?thesis by (simp add: before)
qed

section \<open>The merge of one author (claims C1, C2, C3)\<close>

lemma fold_merge_pub_filter:
  "foldl merge_pub pm (filter (\<lambda>q. author_pub_id q \<noteq> []) qs) = foldl merge_pub pm qs"
  by (induction qs arbitrary: pm) (simp_all add: merge_pub_skip)

lemma merge_pubs_filter:
  "merge_pubs old_pubs (filter (\<lambda>q. author_pub_id q \<noteq> []) new_pubs) = merge_pubs old_pubs new_pubs"
  by (simp add: merge_pubs_def fold_merge_pub_filter)

lemma set_dict_set: "set (dict_set d k v) \<subseteq> insert (k, v) (set d)"
  by (induction d) (auto split: if_splits)

lemma author_pub_id_update:
  assumes "wf_dict q" and "author_pub_id q \<noteq> []"
  shows "author_pub_id (dict_update existing q) = author_pub_id q"
proof -
  from assms(2) obtain s where "dict_get q ''author_pub_id'' = Some (VStr s)"
    by (auto simp: author_pub_id_def str_field_def split: option.splits val.splits)
  then show ?thesis
    using assms(1) by (simp add: author_pub_id_def str_field_def dict_get_update)
qed

lemma keyed_index_pubs: "keyed_by_id (index_pubs ps)"
proof (induction ps rule: rev_induct)
  case Nil
  then show ?case by (simp add: keyed_by_id_def index_pubs_Nil)
next
  case (snoc p ps)
  then show ?case
    using set_dict_set [of "index_pubs ps" "author_pub_id p" p]
    by (auto simp: keyed_by_id_def index_pubs_snoc)
qed

lemma keyed_merge_pub:
  assumes "keyed_by_id pm" and "wf_dict q"
  shows "keyed_by_id (merge_pub pm q)"
proof (cases "author_pub_id q = []")
  case True
  then show ?thesis using assms(1) by (simp add: merge_pub_skip)
next
  case False
  show ?thesis
  proof (cases "dict_get pm (author_pub_id q)")
    case None
    then show ?thesis
      using assms(1) False set_dict_set [of pm "author_pub_id q" q]
      by (auto simp: keyed_by_id_def merge_pub_def Let_def)
  next
    case (Some existing)
    then show ?thesis
      using assms False set_dict_set [of pm "author_pub_id q" "dict_update existing q"]
        author_pub_id_update [of q existing]
      by (auto simp: keyed_by_id_def merge_pub_def Let_def)
  qed
qed

lemma keyed_fold_merge_pub:
  "keyed_by_id pm \<Longrightarrow> \<forall>q \<in> set qs. wf_dict q \<Longrightarrow> keyed_by_id (foldl merge_pub pm qs)"
  by (induction qs arbitrary: pm) (simp_all add: keyed_merge_pub)

lemma keyed_merge_pubs:
  "\<forall>q \<in> set new_pubs. wf_dict q \<Longrightarrow> keyed_by_id (merge_pubs old_pubs new_pubs)"
  by (simp add: merge_pubs_def keyed_fold_merge_pub keyed_index_pubs)

lemma merge_author_existing:
  "dict_get author_map sid = Some old \<Longrightarrow> scholar_id scraped = Some sid \<Longrightarrow> sid \<noteq> [] \<Longrightarrow>
   merge_author author_map scraped =
     dict_set author_map sid
       (scraped\<lparr>publications :=
          dict_values (merge_pubs (publications old) (publications scraped))\<rparr>)"
  by (simp add: merge_author_def)

lemma merge_author_new:
  "dict_get author_map sid = None \<Longrightarrow> scholar_id scraped = Some sid \<Longrightarrow> sid \<noteq> [] \<Longrightarrow>
   merge_author author_map scraped = author_map @ [(sid, scraped)]"
  by (simp add: merge_author_def dict_set_absent)

lemma dict_get_values: "dict_get d k = Some v \<Longrightarrow> v \<in> set (dict_values d)"
  by (force simp: dict_values_def dest: dict_get_in_set)

text \<open>
  Claim C1, as the code has it. When an author is already in the dataset and exactly one
  incoming publication carries the non-empty id \<open>pid\<close> of a prior publication, the merged
  publication stored under \<open>pid\<close> (an element of the merged list) is \<open>merged.update(pub)\<close>
  on a copy of the prior one (the last old publication with that id): every field present
  on the incoming side has the incoming value, every field absent there keeps the prior
  value. A field that is present with an empty value counts as present.
\<close>

theorem merge_overlays_present_fields:
  assumes existing: "dict_get author_map sid = Some old"
    and scraped: "scholar_id scraped = Some sid" "sid \<noteq> []"
    and incoming: "filter (\<lambda>q. author_pub_id q = pid) (publications scraped) = [pub]"
    and pid: "pid \<noteq> []"
    and wf: "wf_dict pub"
    and prior: "filter (\<lambda>p. author_pub_id p = pid) (publications old) \<noteq> []"
  shows "let prior = last (filter (\<lambda>p. author_pub_id p = pid) (publications old));
             merged = dict_update prior pub
         in (\<exists>a'. dict_get (merge_author author_map scraped) sid = Some a' \<and>
                   publications a' = dict_values (merge_pubs (publications old) (publications scraped)) \<and>
                   dict_get (merge_pubs (publications old) (publications scraped)) pid = Some merged \<and>
                   merged \<in> set (publications a')) \<and>
            (\<forall>k. dict_get merged k =
                   (case dict_get pub k of Some v \<Rightarrow> Some v | None \<Rightarrow> dict_get prior k))"
proof -
  let ?prior = "last (filter (\<lambda>p. author_pub_id p = pid) (publications old))"
  let ?pm = "merge_pubs (publications old) (publications scraped)"
  let ?a' = "scraped\<lparr>publications := dict_values ?pm\<rparr>"
  have idx: "dict_get (index_pubs (publications old)) pid = Some ?prior"
    using prior pid by (simp add: index_pubs_get)
  have get: "dict_get ?pm pid = Some (dict_update ?prior pub)"
    using merge_pubs_unique_incoming [OF incoming pid, of "publications old"] idx by simp
  have entry: "dict_get (merge_author author_map scraped) sid = Some ?a'"
    using existing scraped by (simp add: merge_author_existing dict_get_set)
  have mem: "dict_update ?prior pub \<in> set (publications ?a')"
    using get by (simp add: dict_get_values)
  have fields: "\<forall>k. dict_get (dict_update ?prior pub) k =
                  (case dict_get pub k of Some v \<Rightarrow> Some v | None \<Rightarrow> dict_get ?prior k)"
    using wf by (simp add: dict_get_update)
  show ?thesis
    unfolding Let_def using entry get mem fields by auto
qed

lemmas ex_defs = ex_sid_def ex_utcnow_def ex_now_def ex_author_def ex_prior_def ex_incoming_def ex_incoming_empty_def
  ex_no_id_def

lemmas merge_eval = merge_author_def merge_pubs_def merge_pub_def index_pubs_def dict_update_def
  dict_get_def dict_values_def author_pub_id_def str_field_def wf_dict_def py_def Let_def

theorem merge_overlays_present_fields_witness:
  "dict_get (merge_pubs [ex_prior] [ex_incoming]) (py ''A1:p1'') = Some (dict_update ex_prior ex_incoming)
   \<and> dict_get (dict_update ex_prior ex_incoming) ''pages'' = Some (VStr (py ''1-9''))
   \<and> dict_get (dict_update ex_prior ex_incoming) ''title'' = Some (VStr (py ''T''))"
  using merge_overlays_present_fields [of "[(ex_sid, ex_author [ex_prior])]" ex_sid
      "ex_author [ex_prior]" "ex_author [ex_incoming]" "py ''A1:p1''" ex_incoming]
  by (simp add: ex_defs merge_eval)

lemmas results_eval = merge_results_def index_authors_def stamp_author_def stamp_pub_def
  pub_key_def pub_title_def normalize_title_for_dedupe_def strip_def ascii_ucd_def
  ascii_word_def ascii_space_def ascii_lower_def

text \<open>
  Claim C1 as stated fails: an incoming publication whose \<open>pages\<close> field is present but
  empty erases the recorded \<open>pages = "1-9"\<close>.
\<close>

theorem empty_incoming_field_erases:
  "merge_results ascii_ucd ex_utcnow [ex_author [ex_prior]]
     [ex_author [ex_incoming_empty]]
   = [ex_author [[(''author_pub_id'', VStr (py ''A1:p1'')), (''title'', VStr (py ''T'')),
                  (''pages'', VStr []), (''last_scraped'', VStr ex_now)]]]"
  by (simp add: ex_defs merge_eval results_eval)

lemma keyed_values:
  "keyed_by_id pm \<Longrightarrow> dict_get pm i = Some m \<Longrightarrow> author_pub_id m = i"
  by (auto simp: keyed_by_id_def dest: dict_get_in_set)

text \<open>
  Claim C2 as stated fails: an old publication without \<open>author_pub_id\<close> is not indexed
  in \<open>pub_map\<close>, so the merge step drops it, before any dedupe.
\<close>

theorem publication_without_id_lost_in_merge:
  "merge_author [(ex_sid, ex_author [ex_no_id])] (ex_author []) = [(ex_sid, ex_author [])]
   \<and> merge_results ascii_ucd ex_utcnow [ex_author [ex_no_id]] [ex_author []]
       = [ex_author []]"
  by (simp add: ex_defs merge_eval results_eval)

text \<open>
  Claim C3, as the code has it. An incoming publication without \<open>author_pub_id\<close> is never
  matched to a prior entry; when the author is already in the dataset it is skipped (the
  merged list is that of the incoming publications that have an id), and only when the
  author is new are the incoming publications stored as given.
\<close>

theorem incoming_without_id_skipped:
  assumes scraped: "scholar_id scraped = Some sid" "sid \<noteq> []"
  shows "(\<forall>pm q. author_pub_id q = [] \<longrightarrow> merge_pub pm q = pm) \<and>
         (\<forall>old. dict_get author_map sid = Some old \<longrightarrow>
            dict_get (merge_author author_map scraped) sid =
              Some (scraped\<lparr>publications := dict_values (merge_pubs (publications old)
                      (filter (\<lambda>q. author_pub_id q \<noteq> []) (publications scraped)))\<rparr>)) \<and>
         (dict_get author_map sid = None \<longrightarrow>
            dict_get (merge_author author_map scraped) sid = Some scraped)"
proof (intro conjI allI impI)
  fix pm :: "(pystr \<times> pub) list" and q :: pub
  assume "author_pub_id q = []"
  then show "merge_pub pm q = pm" by (rule merge_pub_skip)
next
  fix old
  assume "dict_get author_map sid = Some old"
  then show "dict_get (merge_author author_map scraped) sid =
      Some (scraped\<lparr>publications := dict_values (merge_pubs (publications old)
              (filter (\<lambda>q. author_pub_id q \<noteq> []) (publications scraped)))\<rparr>)"
    using scraped by (simp add: merge_author_existing merge_pubs_filter dict_get_set)
next
  assume "dict_get author_map sid = None"
  then show "dict_get (merge_author author_map scraped) sid = Some scraped"
    using scraped by (simp add: merge_author_def dict_get_set)
qed

theorem incoming_without_id_skipped_witness:
  "dict_get (merge_author [(ex_sid, ex_author [ex_prior])] (ex_author [ex_no_id, ex_incoming])) ex_sid
     = Some (ex_author (dict_values (merge_pubs [ex_prior] [ex_incoming])))
   \<and> dict_get (merge_author [] (ex_author [ex_no_id])) ex_sid = Some (ex_author [ex_no_id])
   \<and> merge_pub (index_pubs [ex_prior]) ex_no_id = index_pubs [ex_prior]"
  using incoming_without_id_skipped [of "ex_author [ex_no_id, ex_incoming]" ex_sid
      "[(ex_sid, ex_author [ex_prior])]"]
    incoming_without_id_skipped [of "ex_author [ex_no_id]" ex_sid "[]"]
  by (simp add: ex_defs merge_eval)

text \<open>
  Claim C3 as stated fails: for an author already in the dataset an incoming publication
  without \<open>author_pub_id\<close> is discarded, not inserted.
\<close>

theorem incoming_without_id_discarded:
  "merge_author [(ex_sid, ex_author [])] (ex_author [ex_no_id]) = [(ex_sid, ex_author [])]
   \<and> merge_results ascii_ucd ex_utcnow [ex_author []] [ex_author [ex_no_id]]
       = [ex_author []]"
  by (simp add: ex_defs merge_eval results_eval)

section \<open>The dedupe pass: basic facts\<close>

lemma dedupe_fst_Nil: "fst (dedupe_pubs U seen []) = []"
  by simp

lemma dedupe_fst_Cons:
  "fst (dedupe_pubs U seen (p # ps)) =
     (if pub_key U p \<in> seen then fst (dedupe_pubs U seen ps)
      else p # fst (dedupe_pubs U (insert (pub_key U p) seen) ps))"
  by (simp split: prod.splits)

lemma dedupe_snd_Cons:
  "snd (dedupe_pubs U seen (p # ps)) =
     (if pub_key U p \<in> seen then snd (dedupe_pubs U seen ps)
      else snd (dedupe_pubs U (insert (pub_key U p) seen) ps))"
  by (simp split: prod.splits)

lemma dedupe_pubs_seen: "snd (dedupe_pubs U seen ps) = seen \<union> pub_key U ` set ps"
proof (induction ps arbitrary: seen)
  case Nil
  then show ?case by simp
next
  case (Cons p ps)
  show ?case
    unfolding dedupe_snd_Cons Cons.IH by auto
qed

lemma dedupe_pubs_append:
  "fst (dedupe_pubs U seen (xs @ ys)) =
     fst (dedupe_pubs U seen xs) @ fst (dedupe_pubs U (seen \<union> pub_key U ` set xs) ys)"
proof (induction xs arbitrary: seen)
  case Nil
  then show ?case by simp
next
  case (Cons x xs)
  show ?case
  proof (cases "pub_key U x \<in> seen")
    case True
    then have "seen \<union> pub_key U ` set (x # xs) = seen \<union> pub_key U ` set xs" by auto
    then show ?thesis
      using True Cons.IH [of seen] by (simp add: dedupe_fst_Cons del: dedupe_pubs.simps(2))
  next
    case False
    have "insert (pub_key U x) seen \<union> pub_key U ` set xs = seen \<union> pub_key U ` set (x # xs)"
      by auto
    then show ?thesis
      using False Cons.IH [of "insert (pub_key U x) seen"]
      by (simp add: dedupe_fst_Cons del: dedupe_pubs.simps(2))
  qed
qed


lemma dedupe_pubs_keys_fresh:
  "pub_key U ` set (fst (dedupe_pubs U seen ps)) \<inter> seen = {}"
proof (induction ps arbitrary: seen)
  case Nil
  then show ?case by simp
next
  case (Cons p ps)
  show ?case
    using Cons.IH [of seen] Cons.IH [of "insert (pub_key U p) seen"]
    by (auto simp: dedupe_fst_Cons simp del: dedupe_pubs.simps(2))
qed

lemma dedupe_pubs_subset: "set (fst (dedupe_pubs U seen ps)) \<subseteq> set ps"
proof (induction ps arbitrary: seen)
  case Nil
  then show ?case by simp
next
  case (Cons p ps)
  show ?case
    using Cons.IH [of seen] Cons.IH [of "insert (pub_key U p) seen"]
    by (auto simp: dedupe_fst_Cons simp del: dedupe_pubs.simps(2))
qed

lemma dedupe_pubs_distinct: "distinct (map (pub_key U) (fst (dedupe_pubs U seen ps)))"
proof (induction ps arbitrary: seen)
  case Nil
  then show ?case by simp
next
  case (Cons p ps)
  have "pub_key U p \<notin> pub_key U ` set (fst (dedupe_pubs U (insert (pub_key U p) seen) ps))"
    using dedupe_pubs_keys_fresh [of U "insert (pub_key U p) seen" ps] by auto
  then show ?case
    using Cons.IH [of seen] Cons.IH [of "insert (pub_key U p) seen"]
    by (simp add: dedupe_fst_Cons del: dedupe_pubs.simps(2))
qed

lemma dedupe_pubs_keys_kept:
  "seen \<union> pub_key U ` set (fst (dedupe_pubs U seen ps)) = seen \<union> pub_key U ` set ps"
proof (induction ps arbitrary: seen)
  case Nil
  then show ?case by simp
next
  case (Cons p ps)
  show ?case
    using Cons.IH [of seen] Cons.IH [of "insert (pub_key U p) seen"]
    by (auto simp: dedupe_fst_Cons simp del: dedupe_pubs.simps(2))
qed

lemma dedupe_authors_Cons:
  "dedupe_authors U seen (a # as) =
     a\<lparr>publications := fst (dedupe_pubs U seen (publications a))\<rparr>
     # dedupe_authors U (seen \<union> pub_key U ` set (publications a)) as"
  using dedupe_pubs_seen [of U seen "publications a"]
  by (cases "dedupe_pubs U seen (publications a)") simp

lemma dedupe_authors_concat:
  "concat (map publications (dedupe_authors U seen as)) =
     fst (dedupe_pubs U seen (concat (map publications as)))"
  by (induction as arbitrary: seen)
     (simp_all add: dedupe_authors_Cons dedupe_pubs_append del: dedupe_authors.simps(2))

lemma dedupe_authors_length: "length (dedupe_authors U seen as) = length as"
  by (induction as arbitrary: seen)
     (simp_all add: dedupe_authors_Cons del: dedupe_authors.simps(2))

lemma dedupe_authors_ids:
  "map scholar_id (dedupe_authors U seen as) = map scholar_id as"
  by (induction as arbitrary: seen)
     (simp_all add: dedupe_authors_Cons del: dedupe_authors.simps(2))

lemma merge_results_distinct_keys:
  "distinct (map (pub_key U) (concat (map publications (merge_results U utcnow existing partial_authors))))"
  by (simp add: merge_results_def Let_def dedupe_authors_concat dedupe_pubs_distinct)

section \<open>Title normalisation: basic facts\<close>




































section \<open>The dedupe pass (claims C4, C10)\<close>

lemma dedupe_authors_append:
  "dedupe_authors U seen (as @ bs) =
     dedupe_authors U seen as
     @ dedupe_authors U (seen \<union> pub_key U ` set (concat (map publications as))) bs"
proof (induction as arbitrary: seen)
  case Nil
  then show ?case by simp
next
  case (Cons a as)
  have "seen \<union> pub_key U ` set (publications a) \<union> pub_key U ` set (concat (map publications as))
      = seen \<union> pub_key U ` set (concat (map publications (a # as)))"
    by auto
  then show ?case
    using Cons.IH [of "seen \<union> pub_key U ` set (publications a)"]
    by (simp add: dedupe_authors_Cons del: dedupe_authors.simps(2))
qed

lemma dedupe_authors_fresh:
  assumes "a' \<in> set (dedupe_authors U seen as)" and "p \<in> set (publications a')"
  shows "pub_key U p \<notin> seen"
proof -
  from assms have "p \<in> set (concat (map publications (dedupe_authors U seen as)))"
    by auto
  then have "p \<in> set (fst (dedupe_pubs U seen (concat (map publications as))))"
    by (simp only: dedupe_authors_concat)
  then show ?thesis
    using dedupe_pubs_keys_fresh [of U seen "concat (map publications as)"] by auto
qed

lemma keyless_key: "keyless U p \<Longrightarrow> pub_key U p = py ''__id__:''"
  by (simp add: keyless_def pub_key_def)

lemma distinct_map_filter_le1:
  assumes "distinct (map f xs)" and "\<And>x. x \<in> set xs \<Longrightarrow> P x \<Longrightarrow> f x = k"
  shows "length (filter P xs) \<le> 1"
  using assms
proof (induction xs)
  case Nil
  then show ?case by simp
next
  case (Cons x xs)
  show ?case
  proof (cases "P x")
    case False
    then show ?thesis using Cons by simp
  next
    case True
    then have fx: "f x = k" using Cons.prems(2) by simp
    have "filter P xs = []"
    proof (rule ccontr)
      assume "filter P xs \<noteq> []"
      then obtain y where y: "y \<in> set xs" "P y"
        by (auto simp: filter_empty_conv)
      then have "f y = k" using Cons.prems(2) by simp
      with fx y(1) Cons.prems(1) show False by (auto simp: image_iff)
    qed
    then show ?thesis using True by simp
  qed
qed




text \<open>
  Claim C10. A publication whose title normalises to the empty string and whose
  \<open>author_pub_id\<close> is empty or absent has the dedupe key \<open>"__id__:"\<close>; the set of seen keys
  is shared by all authors of the pass, so the dataset a save writes holds at most one such
  publication, and once one has been seen in an earlier author every later one is dropped,
  whichever author it belongs to.
\<close>

theorem one_keyless_publication_per_save:
  "(keyless U p \<longrightarrow> pub_key U p = py ''__id__:'')
   \<and> length (filter (keyless U)
        (concat (map publications (merge_results U utcnow existing partial_authors)))) \<le> 1
   \<and> (keyless U q \<and> q \<in> set (concat (map publications earlier)) \<and> keyless U p
        \<and> a' \<in> set (drop (length earlier) (dedupe_authors U seen (earlier @ later)))
        \<longrightarrow> p \<notin> set (publications a'))"
proof (intro conjI impI)
  assume "keyless U p"
  then show "pub_key U p = py ''__id__:''" by (rule keyless_key)
next
  show "length (filter (keyless U)
        (concat (map publications (merge_results U utcnow existing partial_authors)))) \<le> 1"
    using merge_results_distinct_keys [of U utcnow existing partial_authors]
    by (rule distinct_map_filter_le1) (rule keyless_key)
next
  assume h: "keyless U q \<and> q \<in> set (concat (map publications earlier)) \<and> keyless U p
        \<and> a' \<in> set (drop (length earlier) (dedupe_authors U seen (earlier @ later)))"
  let ?seen' = "seen \<union> pub_key U ` set (concat (map publications earlier))"
  have "drop (length earlier) (dedupe_authors U seen (earlier @ later))
      = dedupe_authors U ?seen' later"
    by (simp add: dedupe_authors_append dedupe_authors_length)
  with h have a': "a' \<in> set (dedupe_authors U ?seen' later)" by simp
  have "pub_key U q \<in> ?seen'" using h by blast
  then have seen: "py ''__id__:'' \<in> ?seen'" using h by (simp add: keyless_key)
  show "p \<notin> set (publications a')"
  proof
    assume "p \<in> set (publications a')"
    then have "pub_key U p \<notin> ?seen'" using a' by (rule dedupe_authors_fresh [rotated])
    with seen h show False by (simp add: keyless_key)
  qed
qed

theorem one_keyless_publication_per_save_witness:
  "keyless ascii_ucd ex_bare1 \<and> keyless ascii_ucd ex_bare2
   \<and> pub_key ascii_ucd ex_bare2 = py ''__id__:''
   \<and> ex_bare1 \<in> set (concat (map publications [ex_author [ex_bare1]]))
   \<and> dedupe_authors ascii_ucd {} ([ex_author [ex_bare1]] @ [ex_author2 [ex_bare2]])
        = [ex_author [ex_bare1], ex_author2 []]
   \<and> ex_bare2 \<notin> set (publications (ex_author2 []))
   \<and> merge_results ascii_ucd ex_utcnow []
        [ex_author [ex_bare1], ex_author2 [ex_bare2]]
      = [ex_author [ex_bare1 @ [(''last_scraped'', VStr ex_now)]],
         ex_author2 []]"
  using one_keyless_publication_per_save [of ascii_ucd ex_bare2 ex_utcnow "[]"
      "[ex_author [ex_bare1], ex_author2 [ex_bare2]]" ex_bare1 "[ex_author [ex_bare1]]"
      "ex_author2 []" "{}" "[ex_author2 [ex_bare2]]"]
  by (simp add: ex_defs merge_eval results_eval keyless_def ex_bare1_def ex_bare2_def
      ex_author2_def)

section \<open>Freshness of an author (claim C7)\<close>

lemma first_stale_iff:
  "first_stale f now th sid ps = (if \<exists>p \<in> set ps. pub_is_stale f now th p then Some sid else None)"
  by (induction ps) auto

lemma if_chain_or: "(if A then x else if B then x else y) = (if A \<or> B then x else y)"
  by simp

text \<open>
  Claim C7, as the code has it. An author with a non-empty \<open>scholar_id\<close> is selected
  exactly when it has no publication, or some publication has no \<open>last_scraped\<close>, or one
  that does not parse (or parses without an offset, so that the subtraction raises), or
  one whose age exceeds the threshold. With every publication scraped ten days ago the
  author is selected for a threshold of 7 days and not for 14.
\<close>

theorem needs_scraping_iff_stale:
  assumes "scholar_id author = Some sid" and "sid \<noteq> []"
  shows "check_author_needs_scraping fromisoformat now author threshold_days =
           (if publications author = []
               \<or> (\<exists>p \<in> set (publications author).
                     str_field p ''last_scraped'' = []
                     \<or> fromisoformat (replace_Z (str_field p ''last_scraped'')) = None
                     \<or> (\<exists>t. fromisoformat (replace_Z (str_field p ''last_scraped'')) = Some (Naive t))
                     \<or> (\<exists>t. fromisoformat (replace_Z (str_field p ''last_scraped'')) = Some (Aware t)
                            \<and> now - t > timedelta_days threshold_days))
            then Some sid else None)"
proof -
  have stale: "pub_is_stale fromisoformat now th p \<longleftrightarrow>
      (str_field p ''last_scraped'' = []
       \<or> fromisoformat (replace_Z (str_field p ''last_scraped'')) = None
       \<or> (\<exists>t. fromisoformat (replace_Z (str_field p ''last_scraped'')) = Some (Naive t))
       \<or> (\<exists>t. fromisoformat (replace_Z (str_field p ''last_scraped'')) = Some (Aware t)
              \<and> now - t > th))" for p th
    by (auto simp: pub_is_stale_def Let_def split: option.splits datetime.splits)
  show ?thesis
    using assms
    unfolding check_author_needs_scraping_def first_stale_iff stale
    by (simp only: option.case if_False) (rule if_chain_or)
qed

lemma ex_replace: "replace_Z ex_now = py ''2024-01-01T00:00:00+00:00''"
  by (simp add: replace_Z_def py_def ex_now_def)

theorem needs_scraping_iff_stale_witness:
  "check_author_needs_scraping ex_fromisoformat (1704067200000000 + timedelta_days 10)
      (ex_author [ex_scraped_pub (py ''A1:p1''), ex_scraped_pub (py ''A1:p2'')]) 7 = Some ex_sid
   \<and> check_author_needs_scraping ex_fromisoformat (1704067200000000 + timedelta_days 10)
      (ex_author [ex_scraped_pub (py ''A1:p1''), ex_scraped_pub (py ''A1:p2'')]) 14 = None
   \<and> check_author_needs_scraping ex_fromisoformat (1704067200000000 + timedelta_days 10)
      (ex_author []) 14 = Some ex_sid
   \<and> check_author_needs_scraping ex_fromisoformat (1704067200000000 + timedelta_days 10)
      (ex_author [ex_scraped_pub (py ''A1:p1''), ex_no_id]) 14 = Some ex_sid"
  using needs_scraping_iff_stale [of "ex_author [ex_scraped_pub (py ''A1:p1''), ex_scraped_pub (py ''A1:p2'')]"
      ex_sid ex_fromisoformat "1704067200000000 + timedelta_days 10" 7]
    needs_scraping_iff_stale [of "ex_author [ex_scraped_pub (py ''A1:p1''), ex_scraped_pub (py ''A1:p2'')]"
      ex_sid ex_fromisoformat "1704067200000000 + timedelta_days 10" 14]
    needs_scraping_iff_stale [of "ex_author []" ex_sid ex_fromisoformat
      "1704067200000000 + timedelta_days 10" 14]
    needs_scraping_iff_stale [of "ex_author [ex_scraped_pub (py ''A1:p1''), ex_no_id]" ex_sid
      ex_fromisoformat "1704067200000000 + timedelta_days 10" 14]
  by (simp add: ex_author_def ex_sid_def ex_scraped_pub_def ex_no_id_def str_field_def
      dict_get_def ex_replace ex_fromisoformat_def timedelta_days_def)
     (simp add: py_def ex_now_def)

text \<open>
  Claim C7 as stated fails: a record without \<open>scholar_id\<close> is never selected, not even
  with zero publications or with a publication that was never scraped.
\<close>

theorem author_without_id_never_selected:
  "check_author_needs_scraping ex_fromisoformat (1704067200000000 + timedelta_days 10)
      \<lparr>scholar_id = None, publications = [], meta = []\<rparr> 7 = None
   \<and> check_author_needs_scraping ex_fromisoformat (1704067200000000 + timedelta_days 10)
      \<lparr>scholar_id = Some [], publications = [ex_no_id], meta = []\<rparr> 7 = None"
  by (simp add: check_author_needs_scraping_def)

section \<open>Block detection in crawl (claim C6)\<close>

lemma starts_with_iff: "starts_with sub s \<longleftrightarrow> (\<exists>suf. s = sub @ suf)"
  by (induction sub s rule: starts_with.induct) auto

lemma contains_iff: "contains sub s \<longleftrightarrow> (\<exists>pre suf. s = pre @ sub @ suf)"
proof (induction s)
  case Nil
  then show ?case by auto
next
  case (Cons c cs)
  show ?case
  proof
    assume "contains sub (c # cs)"
    then consider "starts_with sub (c # cs)" | "contains sub cs" by auto
    then show "\<exists>pre suf. c # cs = pre @ sub @ suf"
    proof cases
      case 1
      then obtain suf where "c # cs = sub @ suf" by (auto simp: starts_with_iff)
      then have "c # cs = [] @ sub @ suf" by simp
      then show ?thesis by blast
    next
      case 2
      then obtain pre suf where "cs = pre @ sub @ suf" using Cons.IH by auto
      then have "c # cs = (c # pre) @ sub @ suf" by simp
      then show ?thesis by blast
    qed
  next
    assume "\<exists>pre suf. c # cs = pre @ sub @ suf"
    then obtain pre suf where eq: "c # cs = pre @ sub @ suf" by auto
    show "contains sub (c # cs)"
    proof (cases pre)
      case Nil
      then have "starts_with sub (c # cs)" using eq by (auto simp: starts_with_iff)
      then show ?thesis by simp
    next
      case (Cons d pre')
      then have "cs = pre' @ sub @ suf" using eq by simp
      then have "contains sub cs" using Cons.IH by blast
      then show ?thesis by simp
    qed
  qed
qed

lemma check_for_captcha_iff:
  "check_for_captcha U error_msg \<longleftrightarrow>
     (\<exists>keyword \<in> set CAPTCHA_KEYWORDS. \<exists>pre suf. u_lower U error_msg = pre @ keyword @ suf)"
  by (simp add: check_for_captcha_def Let_def list_ex_iff contains_iff)

lemma crawl_keyword_aborts:
  assumes "elapsed_ms w i \<le> MAX_TIME_PER_AUTHOR * 1000" and "getAuthorData w i = Raised e"
    and "check_for_captcha U (message e)"
  shows "crawl_attempts U w (i # later) = Inl (Exn False (py ''CAPTCHA_DETECTED: '' @ message e))"
  using assms by simp

lemma crawl_other_error_goes_on:
  assumes "elapsed_ms w i \<le> MAX_TIME_PER_AUTHOR * 1000" and "getAuthorData w i = Raised e"
    and "\<not> check_for_captcha U (message e)"
  shows "crawl_attempts U w (i # later) = crawl_attempts U w later"
  using assms by simp

lemma crawl_once: "crawl U w = crawl_attempts U w [0]"
  by (simp add: crawl_def MAX_RETRIES_def)

lemmas captcha_eval = check_for_captcha_def CAPTCHA_KEYWORDS_def ascii_ucd_def ascii_lower_def
  ascii_upper_def py_def Let_def is_captcha_def crawl_once MAX_TIME_PER_AUTHOR_def
  ex_raising_def ex_returning_def

lemma ex_keyword_classified:
  "check_for_captcha ascii_ucd (py ''Please show you are not a robot'')"
  "\<not> check_for_captcha ascii_ucd (py ''429 Too Many Requests'')"
  by (simp_all add: captcha_eval)

text \<open>
  Claim C6 at a typed challenge exception whose text has none of the keywords: \<open>crawl\<close>
  looks at the text only, so the exception is not classified as a block; with
  \<open>MAX_RETRIES = 1\<close> the crawl returns \<open>None\<close> and \<open>start_scraping\<close> goes on with the next id
  and returns normally.
\<close>

theorem typed_challenge_not_classified_by_crawl:
  "\<not> check_for_captcha ascii_ucd (py ''429 Too Many Requests'')
   \<and> crawl ascii_ucd (ex_raising (Exn True (py ''429 Too Many Requests''))) = Inr None
   \<and> fst (start_scraping ascii_ucd
        (\<lambda>k. if k = 0 then ex_raising (Exn True (py ''429 Too Many Requests''))
              else ex_returning (ex_author2 [ex_dl1]))
        ex_utcnow no_faults ''results.json'' ex_files [py ''A1'', py ''B2''])
      = Inr [ex_author2 [ex_dl1]]"
  by (simp add: captcha_eval start_scraping_def)

section \<open>Saving (claim C8)\<close>

lemma save_ok:
  assumes "write_temp F = Written" and "replace_fails F = None"
  shows "merge_and_save_results U utcnow F fs partial_authors path =
           (Inr (),
            (fs(path \<mapsto> Complete (merge_results U utcnow (load_existing F fs path) partial_authors)))
              (path @ ''.tmp'' := None))"
  using assms
  by (auto simp: merge_and_save_results_def Let_def write_file_def fun_eq_iff)

lemma save_returns_complete:
  assumes "merge_and_save_results U utcnow F fs partial_authors path = (Inr u, fs')"
  shows "fs' path = Some (Complete (merge_results U utcnow (load_existing F fs path) partial_authors))"
  using assms
  by (auto simp: merge_and_save_results_def Let_def write_file_def write_final_path_def
      split: write_result.splits option.splits prod.splits if_splits)

lemma save_fallback_torn:
  assumes "write_temp F = OpenFailed m1" and "write_final F = DumpFailed m2"
  shows "merge_and_save_results U utcnow F fs partial_authors path =
           (Inl (Exn False m2),
            fs(path \<mapsto> Torn (merge_results U utcnow (load_existing F fs path) partial_authors)))"
  using assms
  by (simp add: merge_and_save_results_def Let_def write_file_def write_final_path_def)

text \<open>
  Claim C8 at a save whose temporary file cannot be opened and whose fallback dump to the
  destination fails midway: the destination, which held a complete dataset, is left torn.
  The exception is raised to the caller.
\<close>

theorem fallback_write_tears_destination:
  "merge_and_save_results ascii_ucd ex_utcnow
      (no_faults\<lparr>write_temp := OpenFailed (py ''No space left on device''),
                 write_final := DumpFailed (py ''No space left on device'')\<rparr>)
      ex_files [ex_author2 [ex_dl1]] ''results.json''
   = (Inl (Exn False (py ''No space left on device'')),
      ex_files(''results.json'' \<mapsto>
        Torn (merge_results ascii_ucd ex_utcnow [ex_author [ex_prior]]
                [ex_author2 [ex_dl1]])))
   \<and> ex_files ''results.json'' = Some (Complete [ex_author [ex_prior]])"
  by (simp add: save_fallback_torn no_faults_def load_existing_def ex_files_def)

section \<open>Abort of a run (claim C5)\<close>


lemma starts_with_contains: "starts_with sub s \<Longrightarrow> contains sub s"
  by (cases s) (auto elim: starts_with.elims)

lemma abort_is_captcha:
  assumes "upper_keeps_tag U"
  shows "is_captcha U (Exn False (py ''CAPTCHA_DETECTED: CAPTCHA encountered while processing '' @ sid))"
proof -
  have "py ''CAPTCHA_DETECTED: CAPTCHA encountered while processing '' @ sid
      = py ''CAPTCHA_DETECTED'' @ (py '': CAPTCHA encountered while processing '' @ sid)"
    by (simp add: py_def)
  then show ?thesis
    using assms by (simp add: is_captcha_def upper_keeps_tag_def starts_with_contains)
qed

lemma ex_run:
  "start_scraping ascii_ucd ex_world ex_utcnow no_faults ''results.json'' (\<lambda>p. None) ex_ids
     = (Inl (Exn False (py ''CAPTCHA_DETECTED: CAPTCHA encountered while processing '' @ py ''C3'')),
        [ex_author [ex_prior], ex_author2 [ex_dl1]],
        (\<lambda>p. None)(''results.json'' \<mapsto> Complete ex_saved))"
  by (simp add: start_scraping_def ex_world_def ex_ids_def captcha_eval save_partial_results_def
      save_ok no_faults_def load_existing_def ex_saved_def ex_now_def ex_defs merge_eval
      results_eval ex_dl1_def ex_author2_def fun_eq_iff)


lemma ascii_upper_keeps_tag: "upper_keeps_tag ascii_ucd"
  by (simp add: upper_keeps_tag_def ascii_ucd_def ascii_upper_def py_def)


lemma ex_run_dataset:
  "snd (scraper_run ascii_ucd ex_world ex_utcnow no_faults ''results.json''
          (py ''2024-01-01T00:00:05'') no_faults ''results.json'' (\<lambda>p. None) ex_ids) ''results.json''
     = Some (Complete ex_saved)"
proof -
  have tag: "is_captcha ascii_ucd
      (Exn False (py ''CAPTCHA_DETECTED: CAPTCHA encountered while processing '' @ py ''C3''))"
    using ascii_upper_keeps_tag by (rule abort_is_captcha)
  have again: "merge_results ascii_ucd (py ''2024-01-01T00:00:05'') ex_saved
      [ex_author [ex_prior], ex_author2 [ex_dl1]] = ex_saved"
    by (simp add: ex_saved_def ex_now_def ex_defs merge_eval results_eval ex_dl1_def ex_author2_def)
  have ids: "ex_ids \<noteq> []" by (simp add: ex_ids_def)
  show ?thesis
    unfolding scraper_run_def Let_def ex_run
    using tag ids by (simp add: save_ok no_faults_def load_existing_def again)
qed

section \<open>Merging a record twice (claim C9)\<close>

lemma str_field_set_other:
  "k \<noteq> k' \<Longrightarrow> str_field (dict_set p k' v) k = str_field p k"
  by (simp add: str_field_def dict_get_set)

lemma stamp_pub_get:
  "k \<noteq> ''last_scraped'' \<Longrightarrow> dict_get (stamp_pub now p) k = dict_get p k"
  by (simp add: stamp_pub_def dict_get_set)

lemma stamp_pub_str_field:
  "k \<noteq> ''last_scraped'' \<Longrightarrow> str_field (stamp_pub now p) k = str_field p k"
  by (simp add: str_field_def stamp_pub_get)

lemma stamp_pub_id: "author_pub_id (stamp_pub now p) = author_pub_id p"
  by (simp add: author_pub_id_def stamp_pub_str_field)

lemma stamp_pub_title: "pub_title (stamp_pub now p) = pub_title p"
  by (simp add: pub_title_def stamp_pub_str_field stamp_pub_get)

lemma stamp_pub_key: "pub_key U (stamp_pub now p) = pub_key U p"
  by (simp add: pub_key_def Let_def stamp_pub_title stamp_pub_id)

lemma stamp_pub_stamped:
  "now \<noteq> [] \<Longrightarrow> str_field (stamp_pub now p) ''last_scraped'' \<noteq> []"
  by (simp add: stamp_pub_def str_field_def dict_get_set)

lemma stamp_pub_idle: "str_field p ''last_scraped'' \<noteq> [] \<Longrightarrow> stamp_pub now p = p"
  by (simp add: stamp_pub_def)

lemma stamp_pubs_idle:
  "\<forall>p \<in> set ps. str_field p ''last_scraped'' \<noteq> [] \<Longrightarrow> map (stamp_pub now) ps = ps"
  by (induction ps) (simp_all add: stamp_pub_idle)

lemma stamp_author_idle:
  "\<forall>p \<in> set (publications a). str_field p ''last_scraped'' \<noteq> [] \<Longrightarrow> stamp_author now a = a"
  by (simp add: stamp_author_def stamp_pubs_idle)

lemma stamp_authors_idle:
  "\<forall>a \<in> set as. \<forall>p \<in> set (publications a). str_field p ''last_scraped'' \<noteq> [] \<Longrightarrow>
   map (stamp_author now) as = as"
  by (induction as) (simp_all add: stamp_author_idle)

lemma stamp_pub_has_fields:
  assumes "has_fields m q"
    and "dict_get q ''last_scraped'' = None \<or> str_field q ''last_scraped'' \<noteq> []"
  shows "has_fields (stamp_pub now m) q"
proof (cases "str_field m ''last_scraped'' = []")
  case False
  then show ?thesis using assms(1) by (simp add: stamp_pub_idle)
next
  case True
  have no_ls: "dict_get q ''last_scraped'' = None"
  proof (rule ccontr)
    assume present: "dict_get q ''last_scraped'' \<noteq> None"
    from assms(2) have "str_field q ''last_scraped'' \<noteq> []"
    proof
      assume "dict_get q ''last_scraped'' = None"
      with present show ?thesis by (rule notE)
    qed
    then obtain s where q: "dict_get q ''last_scraped'' = Some (VStr s)" and s: "s \<noteq> []"
      by (auto simp: str_field_def split: option.splits val.splits)
    from q have "(''last_scraped'', VStr s) \<in> set q" by (rule dict_get_in_set)
    then have "dict_get m ''last_scraped'' = Some (VStr s)"
      using assms(1) by (auto simp: has_fields_def)
    then show False using True s by (simp add: str_field_def)
  qed
  have "dict_get (stamp_pub now m) k = Some v" if kv: "(k, v) \<in> set q" for k v
  proof -
    have "k \<in> fst ` set q" using kv by force
    moreover have "''last_scraped'' \<notin> fst ` set q"
      using no_ls by (simp add: dict_get_None_iff)
    ultimately have "k \<noteq> ''last_scraped''" by metis
    then show ?thesis using assms(1) kv by (auto simp: has_fields_def stamp_pub_get)
  qed
  then show ?thesis by (auto simp: has_fields_def)
qed

lemma dedupe_pubs_idle:
  "distinct (map (pub_key U) ps) \<Longrightarrow> pub_key U ` set ps \<inter> seen = {} \<Longrightarrow>
   fst (dedupe_pubs U seen ps) = ps"
proof (induction ps arbitrary: seen)
  case Nil
  then show ?case by simp
next
  case (Cons p ps)
  from Cons.prems have fresh: "pub_key U p \<notin> seen" by auto
  from Cons.prems have "pub_key U ` set ps \<inter> insert (pub_key U p) seen = {}" by auto
  with Cons.prems have "fst (dedupe_pubs U (insert (pub_key U p) seen) ps) = ps"
    by (intro Cons.IH) simp_all
  with fresh show ?case by (simp add: dedupe_fst_Cons del: dedupe_pubs.simps(2))
qed

lemma record_update_idle: "a\<lparr>publications := publications a\<rparr> = (a :: author)"
  by simp

lemma dedupe_authors_idle:
  "distinct (map (pub_key U) (concat (map publications as))) \<Longrightarrow>
   pub_key U ` set (concat (map publications as)) \<inter> seen = {} \<Longrightarrow>
   dedupe_authors U seen as = as"
proof (induction as arbitrary: seen)
  case Nil
  then show ?case by simp
next
  case (Cons a as)
  from Cons.prems have d1: "distinct (map (pub_key U) (publications a))"
    and d2: "distinct (map (pub_key U) (concat (map publications as)))"
    and disj: "pub_key U ` set (publications a) \<inter> pub_key U ` set (concat (map publications as)) = {}"
    by auto
  from Cons.prems have f1: "pub_key U ` set (publications a) \<inter> seen = {}" by auto
  have keep: "fst (dedupe_pubs U seen (publications a)) = publications a"
    using d1 f1 by (rule dedupe_pubs_idle)
  have f2: "pub_key U ` set (concat (map publications as))
              \<inter> (seen \<union> pub_key U ` set (publications a)) = {}"
    using Cons.prems(2) disj by auto
  have "dedupe_authors U (seen \<union> pub_key U ` set (publications a)) as = as"
    using d2 f2 by (rule Cons.IH)
  then show ?case
    by (simp add: dedupe_authors_Cons keep del: dedupe_authors.simps(2))
qed

lemma by_id_keys: "fst ` set (by_id ps) = author_pub_id ` set ps"
  by (auto simp: by_id_def image_iff)

lemma by_id_values: "dict_values (by_id ps) = ps"
  by (simp add: by_id_def dict_values_def comp_def)

lemma by_id_append: "by_id (xs @ ys) = by_id xs @ by_id ys"
  by (simp add: by_id_def)

lemma by_id_get:
  "distinct (map author_pub_id xs) \<Longrightarrow> m \<in> set xs \<Longrightarrow>
   dict_get (by_id (xs @ ys)) (author_pub_id m) = Some m"
proof (induction xs)
  case Nil
  then show ?case by simp
next
  case (Cons x xs)
  show ?case
  proof (cases "m = x")
    case True
    then show ?thesis by (simp add: by_id_def dict_get_def)
  next
    case False
    with Cons.prems have "m \<in> set xs" and "author_pub_id x \<noteq> author_pub_id m"
      by (auto simp: image_iff)
    with Cons.IH Cons.prems show ?thesis
      by (simp add: by_id_def dict_get_def)
  qed
qed

lemma index_pubs_by_id:
  "distinct (map author_pub_id ps) \<Longrightarrow> \<forall>p \<in> set ps. author_pub_id p \<noteq> [] \<Longrightarrow>
   index_pubs ps = by_id ps"
proof (induction ps rule: rev_induct)
  case Nil
  then show ?case by (simp add: index_pubs_Nil by_id_def)
next
  case (snoc p ps)
  then have IH: "index_pubs ps = by_id ps" by simp
  have "author_pub_id p \<notin> fst ` set (by_id ps)"
    using snoc.prems(1) by (simp add: by_id_keys)
  then have "dict_get (by_id ps) (author_pub_id p) = None"
    by (simp add: dict_get_None_iff)
  then show ?case
    using snoc.prems(2) by (simp add: index_pubs_snoc IH dict_set_absent by_id_def)
qed

lemma dict_update_has_fields: "has_fields m q \<Longrightarrow> dict_update m q = m"
  by (rule dict_update_same) (auto simp: has_fields_def)

lemma fold_merge_pub_settled:
  assumes "distinct (map author_pub_id S)"
    and "distinct (map author_pub_id N)"
    and "\<forall>q \<in> set N. author_pub_id q \<noteq> [] \<and> author_pub_id q \<notin> author_pub_id ` set R
           \<and> (\<forall>m \<in> set S. author_pub_id m = author_pub_id q \<longrightarrow> has_fields m q)"
  shows "foldl merge_pub (by_id (S @ R)) N =
           by_id (S @ R @ filter (\<lambda>q. author_pub_id q \<notin> author_pub_id ` set S) N)"
  using assms(2,3)
proof (induction N arbitrary: R)
  case Nil
  then show ?case by simp
next
  case (Cons q N)
  let ?pm = "by_id (S @ R)"
  from Cons.prems have q_id: "author_pub_id q \<noteq> []"
    and q_R: "author_pub_id q \<notin> author_pub_id ` set R"
    and q_S: "\<forall>m \<in> set S. author_pub_id m = author_pub_id q \<longrightarrow> has_fields m q"
    and dN: "distinct (map author_pub_id N)"
    and q_N: "author_pub_id q \<notin> author_pub_id ` set N"
    by auto
  show ?case
  proof (cases "author_pub_id q \<in> author_pub_id ` set S")
    case True
    then obtain m where m: "m \<in> set S" "author_pub_id m = author_pub_id q" by auto
    have get: "dict_get ?pm (author_pub_id q) = Some m"
      using by_id_get [OF assms(1) m(1), of R] m(2) by simp
    have "dict_update m q = m" using q_S m by (simp add: dict_update_has_fields)
    then have step: "merge_pub ?pm q = ?pm"
      using q_id get by (simp add: merge_pub_def Let_def dict_set_same)
    have "foldl merge_pub ?pm N =
        by_id (S @ R @ filter (\<lambda>q. author_pub_id q \<notin> author_pub_id ` set S) N)"
      using dN Cons.prems(2) by (intro Cons.IH) auto
    then show ?thesis using True step by simp
  next
    case False
    have "author_pub_id q \<notin> fst ` set ?pm"
      using False q_R by (auto simp: by_id_keys)
    then have "dict_get ?pm (author_pub_id q) = None" by (simp add: dict_get_None_iff)
    then have step: "merge_pub ?pm q = by_id (S @ (R @ [q]))"
      using q_id by (simp add: merge_pub_def Let_def dict_set_absent by_id_def)
    have "foldl merge_pub (by_id (S @ (R @ [q]))) N =
        by_id (S @ (R @ [q]) @ filter (\<lambda>q. author_pub_id q \<notin> author_pub_id ` set S) N)"
    proof (intro Cons.IH)
      show "distinct (map author_pub_id N)" by (rule dN)
      show "\<forall>q' \<in> set N. author_pub_id q' \<noteq> []
              \<and> author_pub_id q' \<notin> author_pub_id ` set (R @ [q])
              \<and> (\<forall>m \<in> set S. author_pub_id m = author_pub_id q' \<longrightarrow> has_fields m q')"
      proof
        fix q' assume q': "q' \<in> set N"
        then have "author_pub_id q' \<noteq> author_pub_id q" using q_N by (metis imageI)
        then show "author_pub_id q' \<noteq> []
              \<and> author_pub_id q' \<notin> author_pub_id ` set (R @ [q])
              \<and> (\<forall>m \<in> set S. author_pub_id m = author_pub_id q' \<longrightarrow> has_fields m q')"
          using Cons.prems(2) q' by auto
      qed
    qed
    then show ?thesis using False step by simp
  qed
qed

lemma merge_pubs_settled:
  assumes "distinct (map author_pub_id S)" and "\<forall>m \<in> set S. author_pub_id m \<noteq> []"
    and "distinct (map author_pub_id N)"
    and "\<forall>q \<in> set N. author_pub_id q \<noteq> []
           \<and> (\<forall>m \<in> set S. author_pub_id m = author_pub_id q \<longrightarrow> has_fields m q)"
  shows "dict_values (merge_pubs S N) =
           S @ filter (\<lambda>q. author_pub_id q \<notin> author_pub_id ` set S) N"
proof -
  have "foldl merge_pub (by_id (S @ [])) N =
      by_id (S @ [] @ filter (\<lambda>q. author_pub_id q \<notin> author_pub_id ` set S) N)"
    using assms(1,3,4) by (intro fold_merge_pub_settled) auto
  then show ?thesis
    using assms(1,2) by (simp add: merge_pubs_def index_pubs_by_id by_id_values)
qed

lemma by_sid_values: "dict_values (by_sid D) = D"
  by (simp add: by_sid_def dict_values_def comp_def)

lemma by_sid_append: "by_sid (xs @ ys) = by_sid xs @ by_sid ys"
  by (simp add: by_sid_def)

lemma index_authors_Nil: "index_authors [] = []"
  by (simp add: index_authors_def)

lemma index_authors_snoc:
  "index_authors (as @ [a]) =
     (case scholar_id a of
        None \<Rightarrow> index_authors as
      | Some sid \<Rightarrow> if sid = [] then index_authors as else dict_set (index_authors as) sid a)"
  by (simp add: index_authors_def split: option.splits)

lemma by_sid_fresh:
  assumes "\<forall>b \<in> set D. scholar_id b \<noteq> None" and "Some s \<notin> scholar_id ` set D"
  shows "s \<notin> fst ` set (by_sid D)"
proof
  assume "s \<in> fst ` set (by_sid D)"
  then obtain b where b: "b \<in> set D" "s = the (scholar_id b)"
    by (auto simp: by_sid_def)
  then have "scholar_id b = Some s" using assms(1) by auto
  then show False using assms(2) b(1) by (metis imageI)
qed

lemma index_authors_by_sid:
  "\<forall>a \<in> set D. scholar_id a \<noteq> None \<and> scholar_id a \<noteq> Some [] \<Longrightarrow>
   distinct (map scholar_id D) \<Longrightarrow> index_authors D = by_sid D"
proof (induction D rule: rev_induct)
  case Nil
  then show ?case by (simp add: index_authors_Nil by_sid_def)
next
  case (snoc a D)
  then have IH: "index_authors D = by_sid D" by simp
  from snoc.prems obtain s where s: "scholar_id a = Some s" "s \<noteq> []" by auto
  have "s \<notin> fst ` set (by_sid D)"
    using snoc.prems s by (intro by_sid_fresh) auto
  then have "dict_get (by_sid D) s = None" by (simp add: dict_get_None_iff)
  then show ?case
    using s by (simp add: index_authors_snoc IH dict_set_absent by_sid_def)
qed

lemma dict_get_mid: "k \<notin> fst ` set A \<Longrightarrow> dict_get (A @ (k, v) # B) k = Some v"
  by (induction A) (auto simp: dict_get_def)

lemma dict_set_mid:
  "k \<notin> fst ` set A \<Longrightarrow> dict_set (A @ (k, v) # B) k v' = A @ (k, v') # B"
  by (induction A) auto

lemma dedupe_pubs_all_seen:
  "pub_key U ` set ps \<subseteq> seen \<Longrightarrow> fst (dedupe_pubs U seen ps) = []"
  by (induction ps) (simp_all add: dedupe_fst_Cons del: dedupe_pubs.simps(2))

lemma merge_results_single:
  "merge_results U utcnow D [P] =
     dedupe_authors U {} (map (stamp_author (utcnow @ py ''Z''))
       (dict_values (merge_author (index_authors D) P)))"
  by (simp add: merge_results_def Let_def)

lemma merge_author_skip:
  "scholar_id P = None \<or> scholar_id P = Some [] \<Longrightarrow> merge_author m P = m"
  by (auto simp: merge_author_def)

lemma settled_merge_idle:
  assumes st: "settled U P D" and wi: "well_identified P"
  shows "merge_results U utcnow D [P] = D"
proof -
  let ?now = "utcnow @ py ''Z''"
  from st have sids: "\<forall>a \<in> set D. scholar_id a \<noteq> None \<and> scholar_id a \<noteq> Some []"
    and dsid: "distinct (map scholar_id D)"
    and stamped: "\<forall>a \<in> set D. \<forall>p \<in> set (publications a). str_field p ''last_scraped'' \<noteq> []"
    and dkeys: "distinct (map (pub_key U) (concat (map publications D)))"
    by (simp_all add: settled_def)
  have idx: "index_authors D = by_sid D" using sids dsid by (rule index_authors_by_sid)
  have whole: "dedupe_authors U {} (map (stamp_author ?now) D) = D"
    using stamped dkeys by (simp add: stamp_authors_idle dedupe_authors_idle)
  show ?thesis
  proof (cases "scholar_id P = None \<or> scholar_id P = Some []")
    case True
    then show ?thesis
      by (simp add: merge_results_single idx merge_author_skip by_sid_values whole)
  next
    case False
    then obtain s where s: "scholar_id P = Some s" "s \<noteq> []" by auto
    from st False obtain A S B where D: "D = A @ P\<lparr>publications := S\<rparr> # B"
      and dS: "distinct (map author_pub_id S)"
      and idS: "\<forall>m \<in> set S. author_pub_id m \<noteq> []"
      and qs: "\<forall>q \<in> set (publications P).
                  pub_key U q \<in> pub_key U ` set (concat (map publications A) @ S)
                  \<and> (\<forall>m \<in> set S. author_pub_id m = author_pub_id q \<longrightarrow> has_fields m q)"
      unfolding settled_def by blast
    let ?a = "P\<lparr>publications := S\<rparr>"
    let ?R = "filter (\<lambda>q. author_pub_id q \<notin> author_pub_id ` set S) (publications P)"
    let ?KA = "pub_key U ` set (concat (map publications A))"
    have sa: "scholar_id ?a = Some s" using s by simp
    have "Some s \<notin> scholar_id ` set A" using dsid sa unfolding D by auto
    moreover have "\<forall>b \<in> set A. scholar_id b \<noteq> None" using sids unfolding D by auto
    ultimately have fresh: "s \<notin> fst ` set (by_sid A)" by (intro by_sid_fresh)
    have decomp: "by_sid D = by_sid A @ (s, ?a) # by_sid B"
      using s by (simp add: D by_sid_def)
    have pubs: "dict_values (merge_pubs S (publications P)) = S @ ?R"
      using dS idS wi qs by (intro merge_pubs_settled) (auto simp: well_identified_def)
    have merged: "merge_author (by_sid D) P = by_sid A @ (s, P\<lparr>publications := S @ ?R\<rparr>) # by_sid B"
      using s fresh pubs by (simp add: merge_author_def decomp dict_get_mid dict_set_mid)
    have vals: "dict_values (merge_author (by_sid D) P) = A @ P\<lparr>publications := S @ ?R\<rparr> # B"
      by (simp add: merged) (simp add: dict_values_def by_sid_def comp_def)
    have stA: "map (stamp_author ?now) A = A"
      using stamped unfolding D by (intro stamp_authors_idle) auto
    have stB: "map (stamp_author ?now) B = B"
      using stamped unfolding D by (intro stamp_authors_idle) auto
    have stS: "map (stamp_pub ?now) S = S"
      using stamped unfolding D by (intro stamp_pubs_idle) auto
    have st2: "stamp_author ?now (P\<lparr>publications := S @ ?R\<rparr>)
        = P\<lparr>publications := S @ map (stamp_pub ?now) ?R\<rparr>"
      by (simp add: stamp_author_def stS)
    have dA: "distinct (map (pub_key U) (concat (map publications A)))"
      using dkeys unfolding D by simp
    have dSk: "distinct (map (pub_key U) S)" using dkeys unfolding D by simp
    have dB: "distinct (map (pub_key U) (concat (map publications B)))"
      using dkeys unfolding D by simp
    have all_keys: "distinct (map (pub_key U) (concat (map publications A))
        @ (map (pub_key U) S @ map (pub_key U) (concat (map publications B))))"
      using dkeys unfolding D by simp
    have i1: "set (map (pub_key U) (concat (map publications A)))
        \<inter> set (map (pub_key U) S @ map (pub_key U) (concat (map publications B))) = {}"
      using all_keys by (simp only: distinct_append)
    have i2: "set (map (pub_key U) S) \<inter> set (map (pub_key U) (concat (map publications B))) = {}"
      using all_keys by (simp only: distinct_append)
    have SA: "pub_key U ` set S \<inter> ?KA = {}"
      using i1 by (simp only: set_map set_append) blast
    have BA: "pub_key U ` set (concat (map publications B)) \<inter> (?KA \<union> pub_key U ` set S) = {}"
      using i1 i2 by (simp only: set_map set_append) blast
    have keepA: "dedupe_authors U {} A = A" using dA by (intro dedupe_authors_idle) simp_all
    have keepS: "fst (dedupe_pubs U ?KA S) = S" using dSk SA by (rule dedupe_pubs_idle)
    have Rkeys: "pub_key U ` set (map (stamp_pub ?now) ?R) \<subseteq> ?KA \<union> pub_key U ` set S"
    proof
      fix k assume "k \<in> pub_key U ` set (map (stamp_pub ?now) ?R)"
      then obtain q where q: "q \<in> set (publications P)" and k: "k = pub_key U q"
        by (auto simp: stamp_pub_key)
      from qs q have "pub_key U q \<in> pub_key U ` set (concat (map publications A) @ S)"
        by blast
      then show "k \<in> ?KA \<union> pub_key U ` set S"
        unfolding k by (simp only: set_append image_Un)
    qed
    have dropR: "fst (dedupe_pubs U (?KA \<union> pub_key U ` set S) (map (stamp_pub ?now) ?R)) = []"
      using Rkeys by (rule dedupe_pubs_all_seen)
    have a2: "fst (dedupe_pubs U ?KA (S @ map (stamp_pub ?now) ?R)) = S"
      by (simp only: dedupe_pubs_append keepS dropR append_Nil2)
    have "pub_key U ` set (S @ map (stamp_pub ?now) ?R)
        = pub_key U ` set S \<union> pub_key U ` set (map (stamp_pub ?now) ?R)"
      by (simp only: set_append image_Un)
    then have seen2: "?KA \<union> pub_key U ` set (S @ map (stamp_pub ?now) ?R) = ?KA \<union> pub_key U ` set S"
      using Rkeys by blast
    have keepB: "dedupe_authors U (?KA \<union> pub_key U ` set S) B = B"
      using dB BA by (rule dedupe_authors_idle)
    let ?X = "P\<lparr>publications := S @ map (stamp_pub ?now) ?R\<rparr>"
    have pX: "publications ?X = S @ map (stamp_pub ?now) ?R" by simp
    have uX: "?X\<lparr>publications := S\<rparr> = P\<lparr>publications := S\<rparr>" by simp
    have "dedupe_authors U {} (A @ ?X # B)
        = dedupe_authors U {} A @ dedupe_authors U ({} \<union> ?KA) (?X # B)"
      by (rule dedupe_authors_append)
    also have "{} \<union> ?KA = ?KA" by (rule Un_empty_left)
    also have "dedupe_authors U ?KA (?X # B)
        = ?X\<lparr>publications := fst (dedupe_pubs U ?KA (publications ?X))\<rparr>
          # dedupe_authors U (?KA \<union> pub_key U ` set (publications ?X)) B"
      by (rule dedupe_authors_Cons)
    also have "?X\<lparr>publications := fst (dedupe_pubs U ?KA (publications ?X))\<rparr>
        = P\<lparr>publications := S\<rparr>"
      unfolding pX a2 by (rule uX)
    also have "dedupe_authors U (?KA \<union> pub_key U ` set (publications ?X)) B = B"
      unfolding pX seen2 by (rule keepB)
    finally have "dedupe_authors U {} (A @ ?X # B) = A @ P\<lparr>publications := S\<rparr> # B"
      unfolding keepA .
    then show ?thesis
      by (simp add: merge_results_single idx vals stA stB st2 D [symmetric])
  qed
qed

lemma keyed_index_authors: "keyed_by_sid (index_authors D) \<and> wf_dict (index_authors D)"
proof (induction D rule: rev_induct)
  case Nil
  then show ?case by (simp add: index_authors_Nil keyed_by_sid_def wf_dict_def)
next
  case (snoc a D)
  show ?case
  proof (cases "scholar_id a")
    case None
    then show ?thesis using snoc by (simp add: index_authors_snoc)
  next
    case (Some s)
    show ?thesis
    proof (cases "s = []")
      case True
      then show ?thesis using snoc Some by (simp add: index_authors_snoc)
    next
      case False
      have "keyed_by_sid (dict_set (index_authors D) s a)"
        using snoc Some False set_dict_set [of "index_authors D" s a]
        by (auto simp: keyed_by_sid_def)
      then show ?thesis
        using snoc Some False by (simp add: index_authors_snoc wf_dict_set)
    qed
  qed
qed

lemma keyed_merge_author:
  assumes "keyed_by_sid m" and "wf_dict m"
  shows "keyed_by_sid (merge_author m P) \<and> wf_dict (merge_author m P)"
proof (cases "scholar_id P = None \<or> scholar_id P = Some []")
  case True
  then show ?thesis using assms by (simp add: merge_author_skip)
next
  case False
  then obtain s where s: "scholar_id P = Some s" "s \<noteq> []" by auto
  obtain X where X: "merge_author m P = dict_set m s X" "scholar_id X = Some s"
    using s by (cases "dict_get m s") (auto simp: merge_author_def)
  have "keyed_by_sid (dict_set m s X)"
    using assms(1) X(2) s(2) set_dict_set [of m s X] by (auto simp: keyed_by_sid_def)
  then show ?thesis using assms(2) X(1) by (simp add: wf_dict_set)
qed

lemma keyed_sids:
  assumes "keyed_by_sid m"
  shows "map scholar_id (dict_values m) = map (\<lambda>kv. Some (fst kv)) m"
  using assms by (induction m) (auto simp: keyed_by_sid_def dict_values_def)

lemma keyed_sids_distinct:
  assumes "keyed_by_sid m" and "wf_dict m"
  shows "distinct (map scholar_id (dict_values m))"
proof -
  have "map (\<lambda>kv. Some (fst kv)) m = map Some (map fst m)" by simp
  then show ?thesis
    using assms by (simp only: keyed_sids wf_dict_def distinct_map) (simp add: distinct_map)
qed

lemma keyed_sids_nonempty:
  assumes "keyed_by_sid m" and "a \<in> set (dict_values m)"
  shows "scholar_id a \<noteq> None \<and> scholar_id a \<noteq> Some []"
  using assms by (auto simp: keyed_by_sid_def dict_values_def)

lemma stamp_authors_sids: "map scholar_id (map (stamp_author now) as) = map scholar_id as"
  by (simp add: stamp_author_def comp_def)

lemma dedupe_authors_pubs_subset:
  assumes "a \<in> set (dedupe_authors U seen as)" and "p \<in> set (publications a)"
  shows "p \<in> set (concat (map publications as))"
proof -
  from assms have "p \<in> set (concat (map publications (dedupe_authors U seen as)))" by auto
  then have "p \<in> set (fst (dedupe_pubs U seen (concat (map publications as))))"
    by (simp only: dedupe_authors_concat)
  then show ?thesis using dedupe_pubs_subset [of U seen "concat (map publications as)"] by blast
qed

lemma now_nonempty: "utcnow @ py ''Z'' \<noteq> []"
  by (simp add: py_def)

lemma merge_results_regular:
  fixes D0 P U utcnow
  defines "D1 \<equiv> merge_results U utcnow D0 [P]"
  shows "(\<forall>a \<in> set D1. scholar_id a \<noteq> None \<and> scholar_id a \<noteq> Some [])"
    and "distinct (map scholar_id D1)"
    and "(\<forall>a \<in> set D1. \<forall>p \<in> set (publications a). str_field p ''last_scraped'' \<noteq> [])"
    and "distinct (map (pub_key U) (concat (map publications D1)))"
proof -
  let ?M1 = "merge_author (index_authors D0) P"
  let ?now = "utcnow @ py ''Z''"
  have D1: "D1 = dedupe_authors U {} (map (stamp_author ?now) (dict_values ?M1))"
    by (simp add: D1_def merge_results_single)
  have k: "keyed_by_sid ?M1" and w: "wf_dict ?M1"
    using keyed_merge_author [of "index_authors D0" P] keyed_index_authors [of D0] by simp_all
  have sids: "map scholar_id D1 = map scholar_id (dict_values ?M1)"
    by (simp only: D1 dedupe_authors_ids stamp_authors_sids)
  show "distinct (map scholar_id D1)"
    unfolding sids using k w by (rule keyed_sids_distinct)
  show "\<forall>a \<in> set D1. scholar_id a \<noteq> None \<and> scholar_id a \<noteq> Some []"
  proof
    fix a assume "a \<in> set D1"
    then have "scholar_id a \<in> set (map scholar_id (dict_values ?M1))"
      unfolding sids [symmetric] by simp
    then obtain b where "b \<in> set (dict_values ?M1)" "scholar_id a = scholar_id b" by auto
    then show "scholar_id a \<noteq> None \<and> scholar_id a \<noteq> Some []"
      using keyed_sids_nonempty [OF k] by simp
  qed
  show "\<forall>a \<in> set D1. \<forall>p \<in> set (publications a). str_field p ''last_scraped'' \<noteq> []"
  proof (intro ballI)
    fix a p assume "a \<in> set D1" "p \<in> set (publications a)"
    then have "p \<in> set (concat (map publications (map (stamp_author ?now) (dict_values ?M1))))"
      unfolding D1 by (rule dedupe_authors_pubs_subset)
    then obtain p0 where "p = stamp_pub ?now p0"
      by (auto simp: stamp_author_def)
    then show "str_field p ''last_scraped'' \<noteq> []"
      using now_nonempty by (simp add: stamp_pub_stamped)
  qed
  show "distinct (map (pub_key U) (concat (map publications D1)))"
    unfolding D1_def by (rule merge_results_distinct_keys)
qed

lemma has_fields_self: "wf_dict q \<Longrightarrow> has_fields q q"
  by (auto simp: has_fields_def wf_dict_def dict_get_def)

lemma has_fields_update:
  assumes "wf_dict q"
  shows "has_fields (dict_update prior q) q"
proof -
  have "dict_get (dict_update prior q) k = Some v" if "(k, v) \<in> set q" for k v
  proof -
    have "dict_get q k = Some v"
      using assms that by (simp add: wf_dict_def dict_get_def)
    then show ?thesis using assms by (simp add: dict_get_update)
  qed
  then show ?thesis by (auto simp: has_fields_def)
qed

lemma filter_same_key:
  "distinct (map f xs) \<Longrightarrow> x \<in> set xs \<Longrightarrow> filter (\<lambda>y. f y = f x) xs = [x]"
proof (induction xs)
  case Nil
  then show ?case by simp
next
  case (Cons y ys)
  show ?case
  proof (cases "x = y")
    case True
    have "filter (\<lambda>z. f z = f y) ys = []"
      using Cons.prems(1) by (auto simp: filter_empty_conv image_iff)
    then show ?thesis using True by simp
  next
    case False
    then have "x \<in> set ys" using Cons.prems(2) by simp
    moreover have "f y \<noteq> f x" using Cons.prems(1) \<open>x \<in> set ys\<close> by (auto simp: image_iff)
    ultimately show ?thesis using Cons by simp
  qed
qed

lemma has_fields_str_field:
  assumes "has_fields m q" and "str_field q k \<noteq> []"
  shows "str_field m k = str_field q k"
proof -
  from assms(2) obtain s where q: "dict_get q k = Some (VStr s)"
    by (auto simp: str_field_def split: option.splits val.splits)
  then have "(k, VStr s) \<in> set q" by (rule dict_get_in_set)
  then have "dict_get m k = Some (VStr s)" using assms(1) by (auto simp: has_fields_def)
  then show ?thesis using q by (simp add: str_field_def)
qed

lemma has_fields_key:
  assumes "has_fields m q" and "str_field q ''title'' \<noteq> []" and "author_pub_id q \<noteq> []"
  shows "pub_key U m = pub_key U q" and "author_pub_id m = author_pub_id q"
proof -
  have t: "str_field m ''title'' = str_field q ''title''"
    using assms(1,2) by (rule has_fields_str_field)
  show i: "author_pub_id m = author_pub_id q"
    using assms(1,3) unfolding author_pub_id_def by (rule has_fields_str_field)
  have "pub_title m = pub_title q" using t assms(2) by (simp add: pub_title_def)
  then show "pub_key U m = pub_key U q" using i by (simp add: pub_key_def Let_def)
qed

lemma dict_get_split:
  "dict_get M k = Some v \<Longrightarrow> \<exists>A B. M = A @ (k, v) # B \<and> k \<notin> fst ` set A"
proof (induction M)
  case Nil
  then show ?case by (simp add: dict_get_def)
next
  case (Cons kv M)
  obtain k' v' where kv: "kv = (k', v')" by (cases kv)
  show ?case
  proof (cases "k' = k")
    case True
    then have "kv # M = [] @ (k, v) # M" using Cons.prems kv by (simp add: dict_get_def)
    then show ?thesis by force
  next
    case False
    then have "dict_get M k = Some v" using Cons.prems kv by (simp add: dict_get_def)
    from Cons.IH [OF this] obtain A B where "M = A @ (k, v) # B" "k \<notin> fst ` set A" by blast
    then have "kv # M = (kv # A) @ (k, v) # B \<and> k \<notin> fst ` set (kv # A)"
      using False kv by simp
    then show ?thesis by blast
  qed
qed

lemma wf_index_pubs: "wf_dict (index_pubs ps)"
  by (induction ps rule: rev_induct)
     (simp_all add: index_pubs_Nil index_pubs_snoc wf_dict_set, simp add: wf_dict_def)

lemma wf_merge_pub: "wf_dict pm \<Longrightarrow> wf_dict (merge_pub pm q)"
  by (simp add: merge_pub_def Let_def wf_dict_set split: option.splits)

lemma wf_merge_pubs: "wf_dict (merge_pubs old_pubs new_pubs)"
proof -
  have "wf_dict pm \<Longrightarrow> wf_dict (foldl merge_pub pm qs)" for pm qs
    by (induction qs arbitrary: pm) (simp_all add: wf_merge_pub)
  then show ?thesis by (simp add: merge_pubs_def wf_index_pubs)
qed

lemma keyed_ids: "keyed_by_id pm \<Longrightarrow> map author_pub_id (dict_values pm) = map fst pm"
  by (induction pm) (auto simp: keyed_by_id_def dict_values_def)

text \<open>The publications that the first merge stores for the record.\<close>

lemma merged_list_props:
  assumes wi: "well_identified P"
    and L: "L = publications P \<or> L = dict_values (merge_pubs old_pubs (publications P))"
  shows "distinct (map author_pub_id L)"
    and "\<forall>m \<in> set L. author_pub_id m \<noteq> []"
    and "\<forall>q \<in> set (publications P). \<exists>m \<in> set L.
            author_pub_id m = author_pub_id q \<and> has_fields m q \<and> pub_key U m = pub_key U q"
proof -
  from wi have wfq: "\<forall>q \<in> set (publications P). wf_dict q"
    and idq: "\<forall>q \<in> set (publications P). author_pub_id q \<noteq> []"
    and tq: "\<forall>q \<in> set (publications P). str_field q ''title'' \<noteq> []"
    and dq: "distinct (map author_pub_id (publications P))"
    by (simp_all add: well_identified_def)
  let ?pm = "merge_pubs old_pubs (publications P)"
  have keyed: "keyed_by_id ?pm" using wfq by (rule keyed_merge_pubs)
  have ids: "map author_pub_id (dict_values ?pm) = map fst ?pm" using keyed by (rule keyed_ids)
  from L show "distinct (map author_pub_id L)"
  proof
    assume "L = publications P" then show ?thesis using dq by simp
  next
    assume "L = dict_values ?pm"
    then show ?thesis using wf_merge_pubs [of old_pubs "publications P"]
      by (simp add: ids wf_dict_def)
  qed
  from L show "\<forall>m \<in> set L. author_pub_id m \<noteq> []"
  proof
    assume "L = publications P" then show ?thesis using idq by simp
  next
    assume Lm: "L = dict_values ?pm"
    show ?thesis
    proof
      fix m assume "m \<in> set L"
      then obtain i where "(i, m) \<in> set ?pm" unfolding Lm by (auto simp: dict_values_def)
      then show "author_pub_id m \<noteq> []" using keyed by (auto simp: keyed_by_id_def)
    qed
  qed
  show "\<forall>q \<in> set (publications P). \<exists>m \<in> set L.
            author_pub_id m = author_pub_id q \<and> has_fields m q \<and> pub_key U m = pub_key U q"
  proof
    fix q assume q: "q \<in> set (publications P)"
    have wq: "wf_dict q" and iq: "author_pub_id q \<noteq> []" and ttl: "str_field q ''title'' \<noteq> []"
      using q wfq idq tq by auto
    from L show "\<exists>m \<in> set L.
            author_pub_id m = author_pub_id q \<and> has_fields m q \<and> pub_key U m = pub_key U q"
    proof
      assume "L = publications P"
      then show ?thesis using q has_fields_self [OF wq] by auto
    next
      assume Lm: "L = dict_values ?pm"
      have uniq: "filter (\<lambda>q'. author_pub_id q' = author_pub_id q) (publications P) = [q]"
        using dq q by (rule filter_same_key)
      obtain m where m: "dict_get ?pm (author_pub_id q) = Some m" and hf: "has_fields m q"
        using merge_pubs_unique_incoming [OF uniq iq, of old_pubs]
          has_fields_self [OF wq] has_fields_update [OF wq]
        by (cases "dict_get (index_pubs old_pubs) (author_pub_id q)") auto
      have "m \<in> set L" unfolding Lm using m by (rule dict_get_values)
      moreover have "author_pub_id m = author_pub_id q" "pub_key U m = pub_key U q"
        using has_fields_key [OF hf ttl iq] by simp_all
      ultimately show ?thesis using hf by blast
    qed
  qed
qed

lemma merge_author_decomp:
  assumes "scholar_id P = Some s" and "s \<noteq> []"
  shows "\<exists>A B L. merge_author M P = A @ (s, P\<lparr>publications := L\<rparr>) # B
           \<and> (L = publications P \<or> (\<exists>old_pubs. L = dict_values (merge_pubs old_pubs (publications P))))"
proof (cases "dict_get M s")
  case None
  then have "merge_author M P = M @ (s, P\<lparr>publications := publications P\<rparr>) # []"
    using assms by (simp add: merge_author_def dict_set_absent)
  then show ?thesis by blast
next
  case (Some old)
  then obtain A B where M: "M = A @ (s, old) # B" and fresh: "s \<notin> fst ` set A"
    using dict_get_split by fastforce
  let ?L = "dict_values (merge_pubs (publications old) (publications P))"
  have "merge_author M P = dict_set M s (P\<lparr>publications := ?L\<rparr>)"
    using Some assms by (simp add: merge_author_def)
  also have "\<dots> = A @ (s, P\<lparr>publications := ?L\<rparr>) # B"
    unfolding M using fresh by (rule dict_set_mid)
  finally show ?thesis by blast
qed

lemma dedupe_pubs_distinct_map:
  "distinct (map f ps) \<Longrightarrow> distinct (map f (fst (dedupe_pubs U seen ps)))"
proof (induction ps arbitrary: seen)
  case Nil
  then show ?case by simp
next
  case (Cons p ps)
  have "f p \<notin> f ` set (fst (dedupe_pubs U seen' ps))" for seen'
    using Cons.prems dedupe_pubs_subset [of U seen' ps] by auto
  then show ?case
    using Cons by (simp add: dedupe_fst_Cons del: dedupe_pubs.simps(2))
qed

lemma dedupe_authors_keys:
  "pub_key U ` set (concat (map publications (dedupe_authors U {} as)))
     = pub_key U ` set (concat (map publications as))"
  using dedupe_pubs_keys_kept [of "{}" U "concat (map publications as)"]
  by (simp only: dedupe_authors_concat Un_empty_left)

lemma merge_results_settled:
  assumes wi: "well_identified P"
  shows "settled U P (merge_results U utcnow D0 [P])"
proof -
  let ?D1 = "merge_results U utcnow D0 [P]"
  let ?now = "utcnow @ py ''Z''"
  note reg = merge_results_regular [where U = U and utcnow = utcnow and P = P and ?D0.0 = D0]
  have last: "scholar_id P = None \<or> scholar_id P = Some [] \<or>
         (\<exists>A S B. ?D1 = A @ P\<lparr>publications := S\<rparr> # B
            \<and> distinct (map author_pub_id S) \<and> (\<forall>m \<in> set S. author_pub_id m \<noteq> [])
            \<and> (\<forall>q \<in> set (publications P).
                  pub_key U q \<in> pub_key U ` set (concat (map publications A) @ S)
                  \<and> (\<forall>m \<in> set S. author_pub_id m = author_pub_id q \<longrightarrow> has_fields m q)))"
  proof (cases "scholar_id P = None \<or> scholar_id P = Some []")
    case True
    then show ?thesis by blast
  next
    case False
    then obtain s where s: "scholar_id P = Some s" "s \<noteq> []" by auto
    from merge_author_decomp [OF s, of "index_authors D0"]
    obtain A0 B0 L where M1: "merge_author (index_authors D0) P = A0 @ (s, P\<lparr>publications := L\<rparr>) # B0"
      and L: "L = publications P \<or> (\<exists>old_pubs. L = dict_values (merge_pubs old_pubs (publications P)))"
      by blast
    from L obtain old_pubs where L': "L = publications P
        \<or> L = dict_values (merge_pubs old_pubs (publications P))"
      by blast
    note Lp = merged_list_props(1) [OF wi L'] merged_list_props(2) [OF wi L']
      merged_list_props(3) [OF wi L', where U = U]
    let ?SA = "map (stamp_author ?now) (dict_values A0)"
    let ?SB = "map (stamp_author ?now) (dict_values B0)"
    let ?sL = "map (stamp_pub ?now) L"
    let ?X = "P\<lparr>publications := ?sL\<rparr>"
    let ?KA = "pub_key U ` set (concat (map publications ?SA))"
    let ?A = "dedupe_authors U {} ?SA"
    let ?S = "fst (dedupe_pubs U ?KA ?sL)"
    let ?B = "dedupe_authors U (?KA \<union> pub_key U ` set ?sL) ?SB"
    have stamped: "map (stamp_author ?now) (dict_values (merge_author (index_authors D0) P))
        = ?SA @ ?X # ?SB"
      by (simp add: M1 dict_values_def stamp_author_def)
    have pX: "publications ?X = ?sL" by simp
    have uX: "?X\<lparr>publications := ?S\<rparr> = P\<lparr>publications := ?S\<rparr>" by simp
    have "dedupe_authors U {} (?SA @ ?X # ?SB)
        = ?A @ dedupe_authors U ({} \<union> ?KA) (?X # ?SB)"
      by (rule dedupe_authors_append)
    also have "{} \<union> ?KA = ?KA" by (rule Un_empty_left)
    also have "dedupe_authors U ?KA (?X # ?SB)
        = ?X\<lparr>publications := fst (dedupe_pubs U ?KA (publications ?X))\<rparr>
          # dedupe_authors U (?KA \<union> pub_key U ` set (publications ?X)) ?SB"
      by (rule dedupe_authors_Cons)
    finally have D1: "?D1 = ?A @ P\<lparr>publications := ?S\<rparr> # ?B"
      unfolding pX uX by (simp only: merge_results_single stamped)
    have ids_sL: "map author_pub_id ?sL = map author_pub_id L"
      by (simp add: stamp_pub_id comp_def)
    have dS: "distinct (map author_pub_id ?S)"
      using Lp(1) by (intro dedupe_pubs_distinct_map) (simp only: ids_sL)
    have sub: "set ?S \<subseteq> set ?sL" by (rule dedupe_pubs_subset)
    have idS: "\<forall>m \<in> set ?S. author_pub_id m \<noteq> []"
    proof
      fix m assume "m \<in> set ?S"
      then obtain m0 where "m0 \<in> set L" "m = stamp_pub ?now m0" using sub by auto
      then show "author_pub_id m \<noteq> []" using Lp(2) by (simp add: stamp_pub_id)
    qed
    have KA: "pub_key U ` set (concat (map publications ?A)) = ?KA"
      by (rule dedupe_authors_keys)
    have kept: "?KA \<union> pub_key U ` set ?S = ?KA \<union> pub_key U ` set ?sL"
      by (rule dedupe_pubs_keys_kept)
    have qs: "\<forall>q \<in> set (publications P).
                  pub_key U q \<in> pub_key U ` set (concat (map publications ?A) @ ?S)
                  \<and> (\<forall>m \<in> set ?S. author_pub_id m = author_pub_id q \<longrightarrow> has_fields m q)"
    proof
      fix q assume q: "q \<in> set (publications P)"
      from Lp(3) q obtain m0 where m0: "m0 \<in> set L" "author_pub_id m0 = author_pub_id q"
        "has_fields m0 q" "pub_key U m0 = pub_key U q"
        by blast
      have ls: "dict_get q ''last_scraped'' = None \<or> str_field q ''last_scraped'' \<noteq> []"
        using wi q by (simp add: well_identified_def)
      have "pub_key U (stamp_pub ?now m0) \<in> pub_key U ` set ?sL"
        using m0(1) by simp
      then have "pub_key U q \<in> ?KA \<union> pub_key U ` set ?sL"
        using m0(4) by (simp add: stamp_pub_key)
      then have "pub_key U q \<in> pub_key U ` set (concat (map publications ?A)) \<union> pub_key U ` set ?S"
        unfolding KA kept .
      then have key: "pub_key U q \<in> pub_key U ` set (concat (map publications ?A) @ ?S)"
        by (simp only: set_append image_Un)
      have fields: "has_fields m q" if m: "m \<in> set ?S" "author_pub_id m = author_pub_id q" for m
      proof -
        from m(1) sub obtain m1 where m1: "m1 \<in> set L" "m = stamp_pub ?now m1" by auto
        then have "author_pub_id m1 = author_pub_id m0"
          using m(2) m0(2) by (simp add: stamp_pub_id)
        then have "m1 = m0"
          using Lp(1) m1(1) m0(1) by (metis distinct_map inj_on_def)
        then show ?thesis
          using m1(2) stamp_pub_has_fields [OF m0(3) ls] by simp
      qed
      show "pub_key U q \<in> pub_key U ` set (concat (map publications ?A) @ ?S)
                  \<and> (\<forall>m \<in> set ?S. author_pub_id m = author_pub_id q \<longrightarrow> has_fields m q)"
        using key fields by blast
    qed
    show ?thesis
      using D1 dS idS qs by blast
  qed
  show ?thesis
    unfolding settled_def using reg last by blast
qed

text \<open>
  Claim C9, as the code has it. For a record whose publications each have a non-empty
  \<open>author_pub_id\<close>, pairwise distinct, a non-empty title and no \<open>last_scraped\<close> that is
  present but empty, merging it a second time into the dataset that the first merge gave,
  whatever the dataset before and the two clock readings, gives that dataset again; so two
  saves in a row, with no fault, leave the same content in the results file.
\<close>

theorem repeated_merge_is_stable:
  assumes "well_identified P"
  shows "merge_results U utcnow2 (merge_results U utcnow1 D0 [P]) [P]
           = merge_results U utcnow1 D0 [P]
         \<and> snd (merge_and_save_results U utcnow2 no_faults
                  (snd (merge_and_save_results U utcnow1 no_faults fs [P] path)) [P] path) path
           = snd (merge_and_save_results U utcnow1 no_faults fs [P] path) path"
proof -
  have stable: "merge_results U u2 (merge_results U u1 D [P]) [P] = merge_results U u1 D [P]"
    for u1 u2 D
    using merge_results_settled [OF assms] assms by (rule settled_merge_idle)
  have ok: "write_temp no_faults = Written" "replace_fails no_faults = None"
    by (simp_all add: no_faults_def)
  have tmp: "path \<noteq> path @ ''.tmp''" by simp
  let ?D1 = "merge_results U utcnow1 (load_existing no_faults fs path) [P]"
  let ?fs1 = "snd (merge_and_save_results U utcnow1 no_faults fs [P] path)"
  have fs1: "?fs1 path = Some (Complete ?D1)"
    using tmp by (simp add: save_ok [OF ok])
  then have load: "load_existing no_faults ?fs1 path = ?D1"
    by (simp add: load_existing_def no_faults_def)
  have second: "merge_and_save_results U utcnow2 no_faults ?fs1 [P] path
      = (Inr (), (?fs1(path \<mapsto> Complete (merge_results U utcnow2
                     (load_existing no_faults ?fs1 path) [P])))(path @ ''.tmp'' := None))"
    by (rule save_ok [OF ok])
  have "snd (merge_and_save_results U utcnow2 no_faults ?fs1 [P] path) path
      = Some (Complete (merge_results U utcnow2 ?D1 [P]))"
    unfolding second load using tmp by simp
  then show ?thesis
    using stable fs1 by simp
qed

theorem repeated_merge_is_stable_witness:
  "well_identified (ex_author [ex_prior, ex_dl1])
   \<and> merge_results ascii_ucd (py ''2024-01-01T00:00:05'')
        (merge_results ascii_ucd ex_utcnow [ex_author2 [ex_dl2], ex_author [ex_incoming_empty]]
           [ex_author [ex_prior, ex_dl1]])
        [ex_author [ex_prior, ex_dl1]]
      = merge_results ascii_ucd ex_utcnow [ex_author2 [ex_dl2], ex_author [ex_incoming_empty]]
          [ex_author [ex_prior, ex_dl1]]"
proof -
  have wi: "well_identified (ex_author [ex_prior, ex_dl1])"
    by (simp add: well_identified_def ex_defs ex_dl1_def wf_dict_def author_pub_id_def
        str_field_def dict_get_def py_def)
  show ?thesis
    using repeated_merge_is_stable [OF wi, of ascii_ucd "py ''2024-01-01T00:00:05''" ex_utcnow
        "[ex_author2 [ex_dl2], ex_author [ex_incoming_empty]]"] wi
    by simp
qed

text \<open>
  Claim C9 as stated fails: the first merge of a new author stores a publication that has
  no \<open>author_pub_id\<close>, the second merge of the same record meets the author in the dataset
  and drops it.
\<close>

theorem second_merge_drops_publication_without_id:
  "merge_results ascii_ucd ex_utcnow [] [ex_author [ex_no_id]]
     = [ex_author [ex_no_id @ [(''last_scraped'', VStr ex_now)]]]
   \<and> merge_results ascii_ucd ex_utcnow
        (merge_results ascii_ucd ex_utcnow [] [ex_author [ex_no_id]]) [ex_author [ex_no_id]]
     = [ex_author []]"
  by (simp add: ex_defs merge_eval results_eval)

lemma second_merge_restamps_empty_last_scraped:
  "merge_results ascii_ucd (py ''2024-01-01T00:00:05'')
        (merge_results ascii_ucd ex_utcnow [] [ex_author [ex_incoming @ [(''last_scraped'', VNone)]]])
        [ex_author [ex_incoming @ [(''last_scraped'', VNone)]]]
     = [ex_author [ex_incoming @ [(''last_scraped'', VStr (py ''2024-01-01T00:00:05Z''))]]]
   \<and> merge_results ascii_ucd ex_utcnow [] [ex_author [ex_incoming @ [(''last_scraped'', VNone)]]]
     = [ex_author [ex_incoming @ [(''last_scraped'', VStr ex_now)]]]"
  by (simp add: ex_defs merge_eval results_eval)

section \<open>Existing publications in the merge (claim C2)\<close>

lemma one_entry_per_id:
  assumes "keyed_by_id pm" and "wf_dict pm" and "i \<in> fst ` set pm"
  shows "length (filter (\<lambda>m. author_pub_id m = i) (dict_values pm)) = 1"
proof -
  have "filter (\<lambda>m. author_pub_id m = i) (dict_values pm) = map snd (filter (\<lambda>kv. fst kv = i) pm)"
    using assms(1) by (induction pm) (auto simp: keyed_by_id_def dict_values_def)
  moreover have "length (filter (\<lambda>kv. fst kv = i) pm) = 1"
    using assms(2,3) by (induction pm) (auto simp: wf_dict_def filter_empty_conv image_iff)
  ultimately show ?thesis by simp
qed

text \<open>
  Claim C2, as the code has it. \<open>pub_map\<close> holds one entry per non-empty
  \<open>author_pub_id\<close>. So for every old publication that has a non-empty id the merged list
  holds exactly one publication with that id; when no incoming publication has the id, that
  one is the last old publication with the id, unchanged, and the old publication itself is
  kept exactly when it is that last one (an old publication that is the only one with its id
  is kept, an earlier one of several that share an id is not).
\<close>

theorem merge_keeps_publications_with_id:
  assumes existing: "dict_get author_map sid = Some old"
    and scraped: "scholar_id scraped = Some sid" "sid \<noteq> []"
    and p: "p \<in> set (publications old)" "author_pub_id p \<noteq> []"
    and wf: "\<forall>q \<in> set (publications scraped). wf_dict q"
  shows "\<exists>a'. dict_get (merge_author author_map scraped) sid = Some a' \<and>
              (\<exists>m \<in> set (publications a'). author_pub_id m = author_pub_id p) \<and>
              length (filter (\<lambda>m. author_pub_id m = author_pub_id p) (publications a')) = 1 \<and>
              ((\<forall>q \<in> set (publications scraped). author_pub_id q \<noteq> author_pub_id p) \<longrightarrow>
                 filter (\<lambda>m. author_pub_id m = author_pub_id p) (publications a') =
                   [last (filter (\<lambda>r. author_pub_id r = author_pub_id p) (publications old))] \<and>
                 (p \<in> set (publications a') \<longleftrightarrow>
                    p = last (filter (\<lambda>r. author_pub_id r = author_pub_id p) (publications old))))"
proof -
  let ?pm = "merge_pubs (publications old) (publications scraped)"
  let ?a' = "scraped\<lparr>publications := dict_values ?pm\<rparr>"
  let ?i = "author_pub_id p"
  let ?same = "filter (\<lambda>m. author_pub_id m = ?i) (publications ?a')"
  have entry: "dict_get (merge_author author_map scraped) sid = Some ?a'"
    using existing scraped by (simp add: merge_author_existing dict_get_set)
  have key: "?i \<in> fst ` set ?pm"
    using p by (auto simp: merge_pubs_keys)
  then obtain m where m: "dict_get ?pm ?i = Some m"
    by (cases "dict_get ?pm ?i") (auto simp: dict_get_None_iff)
  have "author_pub_id m = ?i"
    using keyed_merge_pubs [OF wf] m by (rule keyed_values)
  moreover have "m \<in> set (publications ?a')"
    using m by (simp add: dict_get_values)
  ultimately have repr: "\<exists>m \<in> set (publications ?a'). author_pub_id m = ?i"
    by blast
  have one: "length ?same = 1"
    using one_entry_per_id [OF keyed_merge_pubs [OF wf] wf_merge_pubs key] by simp
  have untouched: "?same = [last (filter (\<lambda>r. author_pub_id r = ?i) (publications old))] \<and>
      (p \<in> set (publications ?a') \<longleftrightarrow>
         p = last (filter (\<lambda>r. author_pub_id r = ?i) (publications old)))"
    if "\<forall>q \<in> set (publications scraped). author_pub_id q \<noteq> ?i"
  proof -
    let ?l = "last (filter (\<lambda>r. author_pub_id r = ?i) (publications old))"
    have ne: "filter (\<lambda>r. author_pub_id r = ?i) (publications old) \<noteq> []"
      using p by (auto simp: filter_empty_conv)
    have "dict_get ?pm ?i = dict_get (index_pubs (publications old)) ?i"
      using that by (simp add: merge_pubs_def fold_merge_pub_get_other)
    also have "\<dots> = Some ?l"
      using ne p by (simp add: index_pubs_get)
    finally have "?l \<in> set (publications ?a')" by (simp add: dict_get_values)
    moreover have "author_pub_id ?l = ?i"
      using last_in_set [OF ne] by simp
    ultimately have mem: "?l \<in> set ?same" by simp
    obtain x where x: "?same = [x]"
      using one by (cases ?same) simp_all
    have same: "?same = [?l]"
      using mem unfolding x by simp
    have "p \<in> set (publications ?a') \<longleftrightarrow> p \<in> set ?same" by simp
    also have "\<dots> \<longleftrightarrow> p = ?l" unfolding same by simp
    finally show ?thesis using same by blast
  qed
  show ?thesis
    using entry repr one untouched by blast
qed

theorem merge_keeps_publications_with_id_witness:
  "(\<exists>m \<in> set (dict_values (merge_pubs [ex_prior] [ex_incoming])). author_pub_id m = py ''A1:p1'')
   \<and> dict_values (merge_pubs [ex_prior] []) = [ex_prior]
   \<and> dict_values (merge_pubs [ex_prior, ex_twin] []) = [ex_twin]"
  using merge_keeps_publications_with_id [of "[(ex_sid, ex_author [ex_prior])]" ex_sid
      "ex_author [ex_prior]" "ex_author [ex_incoming]" ex_prior]
    merge_keeps_publications_with_id [of "[(ex_sid, ex_author [ex_prior])]" ex_sid
      "ex_author [ex_prior]" "ex_author []" ex_prior]
    merge_keeps_publications_with_id [of "[(ex_sid, ex_author [ex_prior, ex_twin])]" ex_sid
      "ex_author [ex_prior, ex_twin]" "ex_author []" ex_twin]
  by (simp add: ex_defs ex_twin_def merge_eval)

text \<open>Of two old publications that share an id, the dictionary comprehension keeps the second.\<close>

lemma earlier_duplicate_id_dropped:
  "merge_author [(ex_sid, ex_author [ex_prior, ex_twin])] (ex_author [])
     = [(ex_sid, ex_author [ex_twin])]"
  by (simp add: ex_defs ex_twin_def merge_eval)

end
